theory Spec2Isabelle
  imports Main "HOL-Library.DAList"
begin

section \<open>Values, errors and the store\<close>

text \<open>
  The values that \<^verbatim>\<open>packages/ember-metal/lib/events.js\<close> handles. \<open>Obj n\<close> is an
  object and \<open>Func n\<close> a function object, both known by their address \<open>n\<close>;
  \<open>Arguments p\<close> is the \<^verbatim>\<open>arguments\<close> object of a call, known by its address \<open>p\<close>: it is
  handed on as it is, so whoever receives it can write to it, and everyone who holds it
  sees what was written; \<open>Array vs\<close> is an array that nobody changes (the application
  below keeps its log of calls in such arrays); \<open>EMPTY_META\<close> is the frozen, shared,
  property-less object that \<^verbatim>\<open>Ember.meta\<close> returns for an object that has no metadata
  yet.
\<close>

datatype val =
    Undefined
  | Null
  | Bool bool
  | Num int
  | Str string
  | Obj nat
  | Func nat
  | Arguments nat
  | Array "val list"
  | EMPTY_META

text \<open>
  What a call can raise: a failed \<^verbatim>\<open>Ember.assert\<close>, the \<^verbatim>\<open>TypeError\<close> of JavaScript (a
  property of \<^verbatim>\<open>null\<close> or \<^verbatim>\<open>undefined\<close>, a call of something that is no function), and
  whatever a listener throws.
\<close>

datatype error = AssertionFailed string | TypeError | Thrown val

text \<open>
  The store. Every JavaScript object is a table of own properties in insertion order
  (the order in which \<^verbatim>\<open>for ... in\<close> visits them), at an address. The store is divided in
  regions by the role an object plays: \<open>User\<close> holds the application's objects (the
  object an event is fired on, the targets; their properties carry the hooks and the
  methods named by a string); \<open>Hash d\<close> holds the hashes that \<^verbatim>\<open>metaPath\<close> creates at
  depth \<open>d\<close> of an object's metadata (0 the meta hash itself, 1 the listener set, 2 a
  target set, 3 an action set); \<open>Action\<close> holds the action records
  \<^verbatim>\<open>{ target, method, xform }\<close>. \<open>metas\<close> gives the address of an object's meta hash,
  \<open>argobjs\<close> the elements of each \<^verbatim>\<open>arguments\<close> object, and \<open>fresh\<close> is the next
  unused address.

  An entry of a hash at depth \<open>d\<close> refers to a hash at depth \<open>d + 1\<close> (to an action
  record, at depth 3), with one exception: the entry under the reserved key
  \<^verbatim>\<open>__ember_source__\<close> refers to the application's object the metadata belongs to.
  \<open>iterateSet\<close> skips that key. A path that goes through it (the event name
  \<^verbatim>\<open>__ember_source__\<close>, or a target or method whose guid is that key) leaves the registry
  and is outside this model: where a theorem of the last section depends on such a path,
  it has the hypothesis that the event name, or the guid, is not the reserved key.
\<close>

datatype region = User | Hash nat | Action

record world =
  heap :: "region \<Rightarrow> nat \<Rightarrow> (string, val) alist"
  metas :: "nat \<Rightarrow> nat option"
  argobjs :: "nat \<Rightarrow> val list"
  fresh :: nat

text \<open>
  A computation returns a value or raises, and leaves a store behind in both cases
  (\<^verbatim>\<open>finally\<close> in \<^verbatim>\<open>suspendListener\<close> runs on the store the callback left when it threw).
  The functions of the application (listeners, transforms, hooks, callbacks) are not part
  of this file: \<open>F f this args\<close> is what the function at address \<open>f\<close> does when called
  with receiver \<open>this\<close> and arguments \<open>args\<close>. It works on the whole store: a function
  that is given an \<^verbatim>\<open>arguments\<close> object can write to it.
\<close>

type_synonym 'a outcome = "(error + 'a) \<times> world"

type_synonym code = "nat \<Rightarrow> val \<Rightarrow> val list \<Rightarrow> world \<Rightarrow> val outcome"

fun truthy :: "val \<Rightarrow> bool" where
  "truthy Undefined = False"
| "truthy Null = False"
| "truthy (Bool b) = b"
| "truthy (Num i) = (i \<noteq> 0)"
| "truthy (Str s) = (s \<noteq> [])"
| "truthy (Obj n) = True"
| "truthy (Func n) = True"
| "truthy (Arguments p) = True"
| "truthy (Array vs) = True"
| "truthy EMPTY_META = True"

fun ref_of :: "val \<Rightarrow> nat option" where
  "ref_of (Obj n) = Some n"
| "ref_of (Func n) = Some n"
| "ref_of v = None"

fun is_function :: "val \<Rightarrow> bool" where
  "is_function (Func n) = True"
| "is_function v = False"

fun nullish :: "val \<Rightarrow> bool" where
  "nullish Undefined = True"
| "nullish Null = True"
| "nullish v = False"

text \<open>\<open>v[k]\<close> for a \<open>v\<close> that is neither \<^verbatim>\<open>null\<close> nor \<^verbatim>\<open>undefined\<close>: a missing property, and
  any property of a primitive value, reads \<^verbatim>\<open>undefined\<close>.\<close>

definition property :: "world \<Rightarrow> region \<Rightarrow> val \<Rightarrow> string \<Rightarrow> val" where
  "property w r v k =
    (case ref_of v of
       None \<Rightarrow> Undefined
     | Some n \<Rightarrow> (case DAList.lookup (heap w r n) k of None \<Rightarrow> Undefined | Some x \<Rightarrow> x))"

text \<open>\<open>v[k]\<close> for any \<open>v\<close>: JavaScript raises a TypeError on \<^verbatim>\<open>null\<close> and \<^verbatim>\<open>undefined\<close>.\<close>

definition get_prop :: "world \<Rightarrow> region \<Rightarrow> val \<Rightarrow> string \<Rightarrow> error + val" where
  "get_prop w r v k = (if nullish v then Inl TypeError else Inr (property w r v k))"

text \<open>\<open>v[k] = x\<close> for a \<open>v\<close> that is neither \<^verbatim>\<open>null\<close> nor \<^verbatim>\<open>undefined\<close>: an existing property
  keeps its place, a new one goes last; on a primitive value, and on the frozen
  \<open>EMPTY_META\<close>, the assignment is dropped.\<close>

definition store :: "region \<Rightarrow> val \<Rightarrow> string \<Rightarrow> val \<Rightarrow> world \<Rightarrow> world" where
  "store r v k x w =
    (case ref_of v of
       None \<Rightarrow> w
     | Some n \<Rightarrow> w\<lparr>heap := (heap w)(r := (heap w r)(n := DAList.update k x (heap w r n)))\<rparr>)"

definition set_prop :: "region \<Rightarrow> val \<Rightarrow> string \<Rightarrow> val \<Rightarrow> world \<Rightarrow> unit outcome" where
  "set_prop r v k x w = (if nullish v then (Inl TypeError, w) else (Inr (), store r v k x w))"

text \<open>The keys that \<^verbatim>\<open>for (k in v)\<close> visits, taken when the loop starts. The objects here
  have no enumerable inherited properties; a primitive value has no keys.\<close>

definition keys :: "world \<Rightarrow> region \<Rightarrow> val \<Rightarrow> string list" where
  "keys w r v =
    (case ref_of v of None \<Rightarrow> [] | Some n \<Rightarrow> map fst (DAList.impl_of (heap w r n)))"

text \<open>A new object with the given properties, at the next unused address.\<close>

definition alloc :: "region \<Rightarrow> (string, val) alist \<Rightarrow> world \<Rightarrow> val \<times> world" where
  "alloc r ps w =
    (Obj (fresh w),
     w\<lparr>heap := (heap w)(r := (heap w r)(fresh w := ps)), fresh := Suc (fresh w)\<rparr>)"

text \<open>Calling a value: only a function can be called.\<close>

definition call :: "code \<Rightarrow> val \<Rightarrow> val \<Rightarrow> val list \<Rightarrow> world \<Rightarrow> val outcome" where
  "call F fv this args w =
    (case fv of Func f \<Rightarrow> F f this args w | _ \<Rightarrow> (Inl TypeError, w))"

text \<open>The \<^verbatim>\<open>arguments\<close> object that a call creates for its argument list.\<close>

definition new_arguments :: "val list \<Rightarrow> world \<Rightarrow> val \<times> world" where
  "new_arguments vs w =
    (Arguments (fresh w),
     w\<lparr>argobjs := (argobjs w)(fresh w := vs), fresh := Suc (fresh w)\<rparr>)"

text \<open>The indexed elements of a value, as they are in the store now: those of an
  \<^verbatim>\<open>arguments\<close> object or an array; the other objects of this model have none.\<close>

fun elements :: "world \<Rightarrow> val \<Rightarrow> val list" where
  "elements w (Arguments p) = argobjs w p"
| "elements w (Array vs) = vs"
| "elements w v = []"

text \<open>\<open>v[i]\<close> for a \<open>v\<close> that is neither \<^verbatim>\<open>null\<close> nor \<^verbatim>\<open>undefined\<close>, and for any \<open>v\<close>.\<close>

definition index :: "world \<Rightarrow> val \<Rightarrow> nat \<Rightarrow> val" where
  "index w v i = (if i < length (elements w v) then elements w v ! i else Undefined)"

definition get_index :: "world \<Rightarrow> val \<Rightarrow> nat \<Rightarrow> error + val" where
  "get_index w v i = (if nullish v then Inl TypeError else Inr (index w v i))"

text \<open>The argument list that \<^verbatim>\<open>f.apply(this, v)\<close> makes of \<open>v\<close>: none for \<^verbatim>\<open>null\<close> and
  \<^verbatim>\<open>undefined\<close>, a TypeError for another primitive value, and the elements that an
  object has at the time of the call.\<close>

fun apply_args :: "world \<Rightarrow> val \<Rightarrow> error + val list" where
  "apply_args w Undefined = Inr []"
| "apply_args w Null = Inr []"
| "apply_args w (Bool b) = Inl TypeError"
| "apply_args w (Num i) = Inl TypeError"
| "apply_args w (Str s) = Inl TypeError"
| "apply_args w v = Inr (elements w v)"

text \<open>The global namespace object \<^verbatim>\<open>Ember\<close> lives at address 0 of the application's
  objects.\<close>

definition Ember :: val where
  "Ember = Obj 0"

section \<open>The collaborators outside \<^verbatim>\<open>events.js\<close>\<close>

text \<open>
  Modelled from the spec: \<^verbatim>\<open>Ember.assert\<close> (ember-metal/core, another file of the package). A failed assertion raises, synchronously; the spec names the error
  \<^verbatim>\<open>InvalidArgument\<close>.
\<close>

definition assert :: "string \<Rightarrow> bool \<Rightarrow> world \<Rightarrow> unit outcome" where
  "assert desc test w = (if test then (Inr (), w) else (Inl (AssertionFailed desc), w))"

text \<open>
  Modelled from the spec: \<^verbatim>\<open>Ember.meta\<close> (ember-metal/utils, another file of the package), the per-object metadata store. \<^verbatim>\<open>meta(obj, false)\<close> reads: an object without
  metadata yields \<open>EMPTY_META\<close>. \<^verbatim>\<open>meta(obj, true)\<close> creates the meta hash on first use.
  \<^verbatim>\<open>null\<close> and \<^verbatim>\<open>undefined\<close> have no properties to look the metadata up in, and a primitive
  value cannot be given any. The objects of this model own their metadata: the
  copy-on-write of metadata inherited from a prototype is outside the model.
\<close>

definition meta :: "val \<Rightarrow> bool \<Rightarrow> world \<Rightarrow> val outcome" where
  "meta obj writable w =
    (if nullish obj then (Inl TypeError, w)
     else case ref_of obj of
       None \<Rightarrow> if writable then (Inl TypeError, w) else (Inr EMPTY_META, w)
     | Some n \<Rightarrow>
        (case metas w n of
           Some m \<Rightarrow> (Inr (Obj m), w)
         | None \<Rightarrow>
            if writable
            then (Inr (Obj (fresh w)),
                  w\<lparr>heap := (heap w)(Hash 0 := (heap w (Hash 0))(fresh w := DAList.empty)),
                    metas := (metas w)(n \<mapsto> fresh w),
                    fresh := Suc (fresh w)\<rparr>)
            else (Inr EMPTY_META, w)))"

text \<open>
  Modelled from the spec: \<^verbatim>\<open>Ember.metaPath\<close> (ember-metal/utils, another file of the package), "get-or-create nested path, optionally writable". It walks the path from the
  meta hash; where an entry is missing or falsy (\<^verbatim>\<open>null\<close> after the cleanup of
  \<^verbatim>\<open>hasListeners\<close>) it returns \<^verbatim>\<open>undefined\<close> when reading and, when writing, puts a new hash
  \<^verbatim>\<open>{ __ember_source__: obj }\<close> there. \<open>metaPath_walk obj d m path\<close> continues from the
  hash \<open>m\<close> at depth \<open>d\<close>.
\<close>

fun metaPath_walk :: "val \<Rightarrow> nat \<Rightarrow> val \<Rightarrow> string list \<Rightarrow> bool \<Rightarrow> world \<Rightarrow> val \<times> world" where
  "metaPath_walk obj d m [] writable w = (m, w)"
| "metaPath_walk obj d m (keyName # path) writable w =
    (let value = property w (Hash d) m keyName in
     if \<not> truthy value then
       (if \<not> writable then (Undefined, w)
        else
          (case alloc (Hash (Suc d)) (DAList.update ''__ember_source__'' obj DAList.empty) w of
             (value, w1) \<Rightarrow>
               metaPath_walk obj (Suc d) value path writable (store (Hash d) m keyName value w1)))
     else metaPath_walk obj (Suc d) value path writable w)"

definition metaPath :: "val \<Rightarrow> string list \<Rightarrow> bool \<Rightarrow> world \<Rightarrow> val outcome" where
  "metaPath obj path writable w =
    (case meta obj writable w of
       (Inl e, w1) \<Rightarrow> (Inl e, w1)
     | (Inr m, w1) \<Rightarrow>
        if path = [] then (Inr Undefined, w1)
        else (case metaPath_walk obj 0 m path writable w1 of (value, w2) \<Rightarrow> (Inr value, w2)))"


text \<open>
  Modelled from the spec: \<^verbatim>\<open>Ember.guidFor\<close> (ember-metal/utils, another file of the
  package) is the parameter \<open>G\<close> of the functions below: the identity token of a value,
  the same for the same value. What a theorem needs of it (two values with different
  tokens, a token that is not the reserved key) is among its hypotheses.
\<close>

type_synonym guid = "val \<Rightarrow> string"

section \<open>\<^verbatim>\<open>events.js\<close>\<close>

text \<open>\<^verbatim>\<open>actionSetFor\<close>: the set of all actions of a target, keyed on the guid of each
  action's method.\<close>

definition actionSetFor :: "guid \<Rightarrow> val \<Rightarrow> string \<Rightarrow> val \<Rightarrow> bool \<Rightarrow> world \<Rightarrow> val outcome" where
  "actionSetFor G obj eventName target writable w =
    metaPath obj [''listeners'', eventName, G target] writable w"

text \<open>\<^verbatim>\<open>targetSetFor\<close>: the set of all targets of an event, or \<^verbatim>\<open>false\<close>.\<close>

definition targetSetFor :: "val \<Rightarrow> string \<Rightarrow> world \<Rightarrow> val outcome" where
  "targetSetFor obj eventName w =
    (case meta obj False w of
       (Inl e, w1) \<Rightarrow> (Inl e, w1)
     | (Inr m, w1) \<Rightarrow>
        (let listenerSet = property w1 (Hash 0) m ''listeners'' in
         if \<not> truthy listenerSet then (Inr (Bool False), w1)
         else
           (let targetSet = property w1 (Hash 1) listenerSet eventName in
            if truthy targetSet then (Inr targetSet, w1) else (Inr (Bool False), w1))))"

text \<open>\<^verbatim>\<open>SKIP_PROPERTIES = { __ember_source__: true }\<close>. (Guids are never the name of a
  property that every JavaScript object inherits.)\<close>

definition SKIP_PROPERTIES :: "string \<Rightarrow> bool" where
  "SKIP_PROPERTIES k \<longleftrightarrow> k = ''__ember_source__''"

text \<open>
  \<^verbatim>\<open>iterateSet(targetSet, callback, params)\<close>. The two \<^verbatim>\<open>for ... in\<close> loops are
  \<open>iterate_targets\<close> and \<open>iterate_methods\<close>, over the keys their object has when the
  loop starts; each entry is read from the store when its turn comes. A callback sees the
  store and the variables it closes over (\<open>acc\<close>); \<open>params\<close> is handed to it as it
  is, \<^verbatim>\<open>undefined\<close> where the caller gives none. The result \<open>True\<close> is the early
  \<^verbatim>\<open>return true\<close>, \<open>False\<close> the \<^verbatim>\<open>return false\<close> at the end.
\<close>

type_synonym 'a callback = "val \<Rightarrow> val \<Rightarrow> 'a \<Rightarrow> world \<Rightarrow> (error + val) \<times> 'a \<times> world"

fun iterate_methods ::
  "'a callback \<Rightarrow> val \<Rightarrow> string list \<Rightarrow> val \<Rightarrow> 'a \<Rightarrow> world \<Rightarrow> (error + bool) \<times> 'a \<times> world" where
  "iterate_methods callback actionSet [] params acc w = (Inr False, acc, w)"
| "iterate_methods callback actionSet (methodGuid # rest) params acc w =
    (if SKIP_PROPERTIES methodGuid then iterate_methods callback actionSet rest params acc w
     else
       (let action = property w (Hash 3) actionSet methodGuid in
        if truthy action then
          (case callback action params acc w of
             (Inl e, acc1, w1) \<Rightarrow> (Inl e, acc1, w1)
           | (Inr r, acc1, w1) \<Rightarrow>
               if r = Bool True then (Inr True, acc1, w1)
               else iterate_methods callback actionSet rest params acc1 w1)
        else iterate_methods callback actionSet rest params acc w))"

fun iterate_targets ::
  "'a callback \<Rightarrow> val \<Rightarrow> string list \<Rightarrow> val \<Rightarrow> 'a \<Rightarrow> world \<Rightarrow> (error + bool) \<times> 'a \<times> world" where
  "iterate_targets callback targetSet [] params acc w = (Inr False, acc, w)"
| "iterate_targets callback targetSet (targetGuid # rest) params acc w =
    (if SKIP_PROPERTIES targetGuid then iterate_targets callback targetSet rest params acc w
     else
       (let actionSet = property w (Hash 2) targetSet targetGuid in
        if truthy actionSet then
          (case iterate_methods callback actionSet (keys w (Hash 3) actionSet) params acc w of
             (Inl e, acc1, w1) \<Rightarrow> (Inl e, acc1, w1)
           | (Inr True, acc1, w1) \<Rightarrow> (Inr True, acc1, w1)
           | (Inr False, acc1, w1) \<Rightarrow> iterate_targets callback targetSet rest params acc1 w1)
        else iterate_targets callback targetSet rest params acc w))"

definition iterateSet ::
  "val \<Rightarrow> 'a callback \<Rightarrow> val \<Rightarrow> 'a \<Rightarrow> world \<Rightarrow> (error + bool) \<times> 'a \<times> world" where
  "iterateSet targetSet callback params acc w =
    (if \<not> truthy targetSet then (Inr False, acc, w)
     else iterate_targets callback targetSet (keys w (Hash 2) targetSet) params acc w)"

text \<open>
  \<^verbatim>\<open>invokeAction(action, params)\<close>. \<^verbatim>\<open>xform(target, method, params)\<close> is a plain call (no
  receiver) that hands the object \<open>params\<close> itself to the transform;
  \<^verbatim>\<open>method.apply(target, params)\<close> calls the method with the elements that \<open>params\<close> has
  at that moment. The function has no \<^verbatim>\<open>return\<close>: its value is \<^verbatim>\<open>undefined\<close> whatever
  the listener returns.
\<close>

definition invokeAction :: "code \<Rightarrow> val \<Rightarrow> val \<Rightarrow> world \<Rightarrow> val outcome" where
  "invokeAction F action params w =
    (if nullish action then (Inl TypeError, w)
     else
       (let method = property w Action action ''method'';
            target = property w Action action ''target'';
            xform = property w Action action ''xform''
        in case (if \<not> truthy target then get_index w params 0 else Inr target) of
             Inl e \<Rightarrow> (Inl e, w)
           | Inr target \<Rightarrow>
        (case (case method of Str name \<Rightarrow> get_prop w User target name | _ \<Rightarrow> Inr method) of
             Inl e \<Rightarrow> (Inl e, w)
           | Inr method \<Rightarrow>
              (case (if truthy xform then call F xform Undefined [target, method, params] w
                     else (case apply_args w params of
                             Inl e \<Rightarrow> (Inl e, w)
                           | Inr args \<Rightarrow> call F method target args w)) of
                 (Inl e, w1) \<Rightarrow> (Inl e, w1)
               | (Inr r, w1) \<Rightarrow> (Inr Undefined, w1)))))"

text \<open>\<open>invokeAction\<close> as the callback of \<open>iterateSet\<close>: it closes over nothing.\<close>

definition invokeAction_cb :: "code \<Rightarrow> unit callback" where
  "invokeAction_cb F action params acc w =
    (case invokeAction F action params w of (r, w1) \<Rightarrow> (r, acc, w1))"

text \<open>The first lines of \<open>addListener\<close>, \<open>removeListener\<close> and \<open>suspendListener\<close>:
  \<^verbatim>\<open>if (!method && 'function' === typeof target) { method = target; target = null; }\<close>\<close>

definition normalize :: "val \<Rightarrow> val \<Rightarrow> val \<times> val" where
  "normalize target method =
    (if \<not> truthy method \<and> is_function target then (Null, target) else (target, method))"

definition addListener ::
  "guid \<Rightarrow> code \<Rightarrow> val \<Rightarrow> string \<Rightarrow> val \<Rightarrow> val \<Rightarrow> val \<Rightarrow> world \<Rightarrow> val outcome" where
  "addListener G F obj eventName target0 method0 xform w =
    (case assert ''You must pass at least an object and event name to Ember.addListener''
            (truthy obj \<and> truthy (Str eventName)) w of
       (Inl e, w0) \<Rightarrow> (Inl e, w0)
     | (Inr u, w0) \<Rightarrow>
    (case normalize target0 method0 of (target, method) \<Rightarrow>
    (case actionSetFor G obj eventName target True w0 of
       (Inl e, w1) \<Rightarrow> (Inl e, w1)
     | (Inr actionSet, w1) \<Rightarrow>
    (case get_prop w1 (Hash 3) actionSet (G method) of
       Inl e \<Rightarrow> (Inl e, w1)
     | Inr existing \<Rightarrow>
    (case (if \<not> truthy existing then
             (case alloc Action
                     (DAList.update ''xform'' xform
                       (DAList.update ''method'' method
                         (DAList.update ''target'' target DAList.empty))) w1 of
                (action, w2) \<Rightarrow> store (Hash 3) actionSet (G method) action w2)
           else store Action existing ''xform'' xform w1) of w3 \<Rightarrow>
    (case get_prop w3 User obj ''didAddListener'' of
       Inl e \<Rightarrow> (Inl e, w3)
     | Inr hook \<Rightarrow>
        if is_function hook then
          (case call F hook obj [Str eventName, target, method] w3 of
             (Inl e, w4) \<Rightarrow> (Inl e, w4)
           | (Inr r, w4) \<Rightarrow> (Inr Undefined, w4))
        else (Inr Undefined, w3)))))))"

definition removeListener ::
  "guid \<Rightarrow> code \<Rightarrow> val \<Rightarrow> string \<Rightarrow> val \<Rightarrow> val \<Rightarrow> world \<Rightarrow> val outcome" where
  "removeListener G F obj eventName target0 method0 w =
    (case normalize target0 method0 of (target, method) \<Rightarrow>
    (case actionSetFor G obj eventName target True w of
       (Inl e, w1) \<Rightarrow> (Inl e, w1)
     | (Inr actionSet, w1) \<Rightarrow>
    (case (if truthy actionSet \<and> truthy (property w1 (Hash 3) actionSet (G method))
           then store (Hash 3) actionSet (G method) Null w1 else w1) of w2 \<Rightarrow>
     if truthy obj \<and> is_function (property w2 User obj ''didRemoveListener'') then
       (case call F (property w2 User obj ''didRemoveListener'') obj
               [Str eventName, target, method] w2 of
          (Inl e, w3) \<Rightarrow> (Inl e, w3)
        | (Inr r, w3) \<Rightarrow> (Inr Undefined, w3))
     else (Inr Undefined, w2))))"

text \<open>
  \<^verbatim>\<open>suspendListener\<close>. \<^verbatim>\<open>try { return callback.call(target); } finally { ... }\<close>: the
  assignment after the callback runs on the store the callback left, whether it returned
  or threw, and the callback's value or error is the result.
\<close>

definition suspendListener ::
  "guid \<Rightarrow> code \<Rightarrow> val \<Rightarrow> string \<Rightarrow> val \<Rightarrow> val \<Rightarrow> val \<Rightarrow> world \<Rightarrow> val outcome" where
  "suspendListener G F obj eventName target0 method0 callback w =
    (case normalize target0 method0 of (target, method) \<Rightarrow>
    (case actionSetFor G obj eventName target True w of
       (Inl e, w1) \<Rightarrow> (Inl e, w1)
     | (Inr actionSet, w1) \<Rightarrow>
    (let action = (if truthy actionSet then property w1 (Hash 3) actionSet (G method)
                   else actionSet)
     in case set_prop (Hash 3) actionSet (G method) Null w1 of
          (Inl e, w2) \<Rightarrow> (Inl e, w2)
        | (Inr u, w2) \<Rightarrow>
           (case call F callback target [] w2 of
              (r, w3) \<Rightarrow> (r, store (Hash 3) actionSet (G method) action w3)))))"

text \<open>The statement that opens \<open>sendEvent\<close> and the function returned by
  \<open>deferEvent\<close>: \<^verbatim>\<open>if (obj !== Ember && 'function' === typeof obj.sendEvent)
  obj.sendEvent.apply(obj, a_slice.call(arguments, 1))\<close>, "first give object a chance to
  handle it". \<open>args1\<close> is the argument list without its first element.\<close>

definition object_sendEvent :: "code \<Rightarrow> val \<Rightarrow> val list \<Rightarrow> world \<Rightarrow> unit outcome" where
  "object_sendEvent F obj args1 w =
    (if obj = Ember then (Inr (), w)
     else
       (case get_prop w User obj ''sendEvent'' of
          Inl e \<Rightarrow> (Inl e, w)
        | Inr hook \<Rightarrow>
           if is_function hook then
             (case call F hook obj args1 w of
                (Inl e, w1) \<Rightarrow> (Inl e, w1)
              | (Inr r, w1) \<Rightarrow> (Inr (), w1))
           else (Inr (), w)))"

text \<open>\<^verbatim>\<open>sendEvent(obj, eventName, ...)\<close>: \<open>args\<close> are the arguments after the event name,
  so that the call creates the \<^verbatim>\<open>arguments\<close> object with the elements
  \<open>obj # Str eventName # args\<close>. \<^verbatim>\<open>a_slice.call(arguments, 1)\<close> copies its elements from
  the second on; \<open>iterateSet\<close> receives the object itself. The parameters \<open>obj\<close>
  and \<open>eventName\<close> are read before anyone else holds the \<^verbatim>\<open>arguments\<close> object.\<close>

definition sendEvent :: "code \<Rightarrow> val \<Rightarrow> string \<Rightarrow> val list \<Rightarrow> world \<Rightarrow> val outcome" where
  "sendEvent F obj eventName args w =
    (case new_arguments (obj # Str eventName # args) w of (arguments, w0) \<Rightarrow>
    (case object_sendEvent F obj (drop 1 (elements w0 arguments)) w0 of
       (Inl e, w1) \<Rightarrow> (Inl e, w1)
     | (Inr u, w1) \<Rightarrow>
    (case targetSetFor obj eventName w1 of
       (Inl e, w2) \<Rightarrow> (Inl e, w2)
     | (Inr targetSet, w2) \<Rightarrow>
    (case iterateSet targetSet (invokeAction_cb F) arguments () w2 of
       (Inl e, acc, w3) \<Rightarrow> (Inl e, w3)
     | (Inr b, acc, w3) \<Rightarrow> (Inr (Bool True), w3)))))"

text \<open>
  \<^verbatim>\<open>deferEvent\<close> returns a function that closes over \<open>obj\<close>, \<open>actions\<close> and \<open>params\<close>.
  \<open>params\<close> is the \<^verbatim>\<open>arguments\<close> object of the call of \<open>deferEvent\<close>, and \<open>obj\<close> is
  its first named parameter: the file is not in strict mode, so the variable \<open>obj\<close>
  and the element 0 of \<^verbatim>\<open>arguments\<close> are one and the same, and \<open>obj\<close> is read from
  there when the function runs. The record \<open>deferred\<close> holds \<open>actions\<close> (an array that
  only the function reaches) and \<open>params\<close>, and \<open>run_deferred\<close> is the body of the
  function. Its \<^verbatim>\<open>for\<close> loop over \<open>actions\<close> is \<open>invokeActions\<close>. The callback that
  collects the actions is called with one argument and returns nothing.
\<close>

record deferred =
  d_actions :: "val list"
  d_params :: val

definition push_cb :: "(val list) callback" where
  "push_cb action params actions w = (Inr Undefined, actions @ [action], w)"

definition deferEvent :: "val \<Rightarrow> string \<Rightarrow> val list \<Rightarrow> world \<Rightarrow> deferred outcome" where
  "deferEvent obj eventName args w =
    (case new_arguments (obj # Str eventName # args) w of (params, w0) \<Rightarrow>
    (case targetSetFor obj eventName w0 of
       (Inl e, w1) \<Rightarrow> (Inl e, w1)
     | (Inr targetSet, w1) \<Rightarrow>
    (case iterateSet targetSet push_cb Undefined [] w1 of
       (Inl e, actions, w2) \<Rightarrow> (Inl e, w2)
     | (Inr b, actions, w2) \<Rightarrow>
        (Inr \<lparr>d_actions = actions, d_params = params\<rparr>, w2))))"

fun invokeActions :: "code \<Rightarrow> val list \<Rightarrow> val \<Rightarrow> world \<Rightarrow> val outcome" where
  "invokeActions F [] params w = (Inr Undefined, w)"
| "invokeActions F (action # actions) params w =
    (case invokeAction F action params w of
       (Inl e, w1) \<Rightarrow> (Inl e, w1)
     | (Inr r, w1) \<Rightarrow> invokeActions F actions params w1)"

definition run_deferred :: "code \<Rightarrow> deferred \<Rightarrow> world \<Rightarrow> val outcome" where
  "run_deferred F c w =
    (case object_sendEvent F (index w (d_params c) 0) (drop 1 (elements w (d_params c))) w of
       (Inl e, w1) \<Rightarrow> (Inl e, w1)
     | (Inr u, w1) \<Rightarrow> invokeActions F (d_actions c) (d_params c) w1)"

text \<open>\<^verbatim>\<open>hasListeners\<close>: its callback is \<^verbatim>\<open>function() { return true; }\<close>.\<close>

definition true_cb :: "unit callback" where
  "true_cb action params acc w = (Inr (Bool True), acc, w)"

definition hasListeners :: "val \<Rightarrow> string \<Rightarrow> world \<Rightarrow> val outcome" where
  "hasListeners obj eventName w =
    (case targetSetFor obj eventName w of
       (Inl e, w1) \<Rightarrow> (Inl e, w1)
     | (Inr targetSet, w1) \<Rightarrow>
    (case iterateSet targetSet true_cb Undefined () w1 of
       (Inl e, acc, w2) \<Rightarrow> (Inl e, w2)
     | (Inr True, acc, w2) \<Rightarrow> (Inr (Bool True), w2)
     | (Inr False, acc, w2) \<Rightarrow>
        (case metaPath obj [''listeners''] True w2 of
           (Inl e, w3) \<Rightarrow> (Inl e, w3)
         | (Inr set1, w3) \<Rightarrow>
            (case set_prop (Hash 1) set1 eventName Null w3 of
               (Inl e, w4) \<Rightarrow> (Inl e, w4)
             | (Inr u, w4) \<Rightarrow> (Inr (Bool False), w4)))))"

text \<open>\<^verbatim>\<open>listenersFor\<close>: the (target, method) pairs of the live actions.\<close>

definition pair_cb :: "((val \<times> val) list) callback" where
  "pair_cb action params ret w =
    (Inr Undefined,
     ret @ [(property w Action action ''target'', property w Action action ''method'')], w)"

definition listenersFor :: "val \<Rightarrow> string \<Rightarrow> world \<Rightarrow> ((val \<times> val) list) outcome" where
  "listenersFor obj eventName w =
    (case targetSetFor obj eventName w of
       (Inl e, w1) \<Rightarrow> (Inl e, w1)
     | (Inr targetSet, w1) \<Rightarrow>
    (case iterateSet targetSet pair_cb Undefined [] w1 of
       (Inl e, ret, w2) \<Rightarrow> (Inl e, w2)
     | (Inr b, ret, w2) \<Rightarrow> (Inr ret, w2)))"

section \<open>Reading the registry\<close>

text \<open>
  The definitions of this section are not part of \<^verbatim>\<open>events.js\<close>: they say, in the words
  of the specification, what the registry of an object holds, so that the functions above
  can be compared with it.

  \<open>walk_ro\<close> follows a path of keys through the hashes without creating anything;
  \<open>registry_path w obj path\<close> starts at the meta hash of \<open>obj\<close>. The slot of an
  identity is what the path \<^verbatim>\<open>listeners / eventName / guid(target) / guid(method)\<close>
  holds: an action, the tombstone \<^verbatim>\<open>null\<close>, or \<^verbatim>\<open>undefined\<close> when nothing was ever
  registered.
\<close>

fun walk_ro :: "world \<Rightarrow> nat \<Rightarrow> val \<Rightarrow> string list \<Rightarrow> val" where
  "walk_ro w d m [] = m"
| "walk_ro w d m (k # ks) = walk_ro w (Suc d) (property w (Hash d) m k) ks"

definition meta_val :: "world \<Rightarrow> val \<Rightarrow> val" where
  "meta_val w obj =
     (case ref_of obj of None \<Rightarrow> EMPTY_META
      | Some n \<Rightarrow> (case metas w n of None \<Rightarrow> EMPTY_META | Some m \<Rightarrow> Obj m))"

definition registry_path :: "world \<Rightarrow> val \<Rightarrow> string list \<Rightarrow> val" where
  "registry_path w obj path = walk_ro w 0 (meta_val w obj) path"

definition slot_of :: "world \<Rightarrow> val \<Rightarrow> string \<Rightarrow> string \<Rightarrow> string \<Rightarrow> val" where
  "slot_of w obj eventName tg mg = registry_path w obj [''listeners'', eventName, tg, mg]"

text \<open>
  The live actions: every entry of every action set of a target set that is neither a
  tombstone nor under the reserved key, with the two guids it is stored under, in the order
  of the tables. \<open>live_slots_of\<close> are the live actions of an object and an event,
  \<open>live_actions\<close> the action records alone.
\<close>

definition live_methods :: "world \<Rightarrow> val \<Rightarrow> (string \<times> val) list" where
  "live_methods w actionSet =
     map (\<lambda>mg. (mg, property w (Hash 3) actionSet mg))
       (filter (\<lambda>mg. \<not> SKIP_PROPERTIES mg \<and> truthy (property w (Hash 3) actionSet mg))
          (keys w (Hash 3) actionSet))"

definition live_slots :: "world \<Rightarrow> val \<Rightarrow> ((string \<times> string) \<times> val) list" where
  "live_slots w targetSet =
     concat (map (\<lambda>tg. map (\<lambda>(mg, a). ((tg, mg), a))
                         (live_methods w (property w (Hash 2) targetSet tg)))
       (filter (\<lambda>tg. \<not> SKIP_PROPERTIES tg \<and> truthy (property w (Hash 2) targetSet tg))
          (keys w (Hash 2) targetSet)))"

definition live_of_targets :: "world \<Rightarrow> val \<Rightarrow> string list \<Rightarrow> val list" where
  "live_of_targets w targetSet tgs =
     concat (map (\<lambda>tg. map snd (live_methods w (property w (Hash 2) targetSet tg)))
       (filter (\<lambda>tg. \<not> SKIP_PROPERTIES tg \<and> truthy (property w (Hash 2) targetSet tg)) tgs))"

definition targetSet_of :: "world \<Rightarrow> val \<Rightarrow> string \<Rightarrow> val" where
  "targetSet_of w obj eventName =
     (case fst (targetSetFor obj eventName w) of Inl e \<Rightarrow> Undefined | Inr targetSet \<Rightarrow> targetSet)"

definition live_slots_of :: "world \<Rightarrow> val \<Rightarrow> string \<Rightarrow> ((string \<times> string) \<times> val) list" where
  "live_slots_of w obj eventName = live_slots w (targetSet_of w obj eventName)"

definition live_actions :: "world \<Rightarrow> val \<Rightarrow> string \<Rightarrow> val list" where
  "live_actions w obj eventName = map snd (live_slots_of w obj eventName)"

text \<open>
  "No listener mutates the registry": \<open>registry_kept w w'\<close> says that \<open>w'\<close> has the
  metadata of \<open>w\<close> (the meta hashes, all registry hashes and the action records; the
  application's own objects may differ, and addresses may have been used up), and
  \<open>registry_untouched F\<close> that no function of the application changes the metadata.
\<close>

definition registry_kept :: "world \<Rightarrow> world \<Rightarrow> bool" where
  "registry_kept w w' \<longleftrightarrow>
     metas w' = metas w \<and> (\<forall>r. r \<noteq> User \<longrightarrow> heap w' r = heap w r) \<and> fresh w \<le> fresh w'"

definition registry_untouched :: "code \<Rightarrow> bool" where
  "registry_untouched F \<longleftrightarrow> (\<forall>f this args w. registry_kept w (snd (F f this args w)))"

text \<open>
  A store is well formed when every entry of a registry hash is an object (a hash, an
  action record, the source object) or is falsy (a tombstone, nothing): the registry that
  \<open>metaPath\<close> and \<open>addListener\<close> build never holds a number or a string.
\<close>

definition well_formed :: "world \<Rightarrow> bool" where
  "well_formed w \<longleftrightarrow>
     (\<forall>d v k. truthy (property w (Hash d) v k) \<longrightarrow> ref_of (property w (Hash d) v k) \<noteq> None)"

text \<open>
  Three pieces of \<open>addListener\<close> by name, for the proofs: the action record it
  creates, what it does to the action set once \<open>actionSetFor\<close> has returned it, and the
  call of an optional hook of the object (\<open>didAddListener\<close>, \<open>didRemoveListener\<close>).
\<close>

definition new_action :: "val \<Rightarrow> val \<Rightarrow> val \<Rightarrow> (string, val) alist" where
  "new_action target method xform =
     DAList.update ''xform'' xform
       (DAList.update ''method'' method (DAList.update ''target'' target DAList.empty))"

definition register_in :: "guid \<Rightarrow> val \<Rightarrow> val \<Rightarrow> val \<Rightarrow> val \<Rightarrow> world \<Rightarrow> world" where
  "register_in G actionSet target method xform w1 =
     (if \<not> truthy (property w1 (Hash 3) actionSet (G method)) then
        store (Hash 3) actionSet (G method) (Obj (fresh w1))
          (snd (alloc Action (new_action target method xform) w1))
      else store Action (property w1 (Hash 3) actionSet (G method)) ''xform'' xform w1)"

definition hook_call :: "code \<Rightarrow> val \<Rightarrow> string \<Rightarrow> val list \<Rightarrow> world \<Rightarrow> val outcome" where
  "hook_call F obj name args w =
     (if is_function (property w User obj name) then
        (case call F (property w User obj name) obj args w of
           (Inl e, w4) \<Rightarrow> (Inl e, w4)
         | (Inr r, w4) \<Rightarrow> (Inr Undefined, w4))
      else (Inr Undefined, w))"

text \<open>
  What \<open>hasListeners\<close> leaves behind when it finds no live action: the entry of the
  event in the listener set is \<^verbatim>\<open>null\<close>.
\<close>

definition cleanup :: "val \<Rightarrow> string \<Rightarrow> world \<Rightarrow> world" where
  "cleanup obj eventName w =
     (case metaPath obj [''listeners''] True w of
        (Inl e, w3) \<Rightarrow> w3
      | (Inr set1, w3) \<Rightarrow> store (Hash 1) set1 eventName Null w3)"

section \<open>A small application\<close>

text \<open>
  Concrete objects and functions on which the theorems are tried. The object \<open>Obj 1\<close>
  fires events, \<open>Obj 2\<close> and \<open>Obj 3\<close> are targets, \<open>LOG\<close> is an object whose
  property \<open>calls\<close> is the list of the calls made so far. Every function of \<open>F1\<close>
  appends its own address, its receiver and its arguments to that list (of an
  \<^verbatim>\<open>arguments\<close> object among them, the elements it has at that moment), except the
  function at address 10, which throws. The function at address 12 is a transform that,
  after that, writes to the \<^verbatim>\<open>arguments\<close> object it is given:
  \<^verbatim>\<open>params[0] = o3; params[2] = 99\<close>. \<open>F0\<close> has one more function, at address 8,
  which asks \<open>hasListeners\<close> about the event \<^verbatim>\<open>x:changed\<close> of \<open>Obj 1\<close>. \<open>G0\<close>
  gives every object and function a token of its own. \<open>w_init\<close> is the store before any
  listener is registered.
\<close>

definition LOG :: val where
  "LOG = Obj 9"

definition snapshot :: "world \<Rightarrow> val \<Rightarrow> val" where
  "snapshot w v = (case v of Arguments p \<Rightarrow> Array (argobjs w p) | _ \<Rightarrow> v)"

definition record_call :: "nat \<Rightarrow> val \<Rightarrow> val list \<Rightarrow> world \<Rightarrow> val outcome" where
  "record_call f this args w =
    (Inr Undefined,
     store User LOG ''calls''
       (Array ((case property w User LOG ''calls'' of Array es \<Rightarrow> es | _ \<Rightarrow> [])
               @ [Array [Func f, this, Array (map (snapshot w) args)]])) w)"

text \<open>\<^verbatim>\<open>v[i] = x\<close> on an \<^verbatim>\<open>arguments\<close> object: an index beyond the last element
  extends the object.\<close>

definition set_index :: "val \<Rightarrow> nat \<Rightarrow> val \<Rightarrow> world \<Rightarrow> world" where
  "set_index v i x w =
    (case v of
       Arguments p \<Rightarrow>
         w\<lparr>argobjs := (argobjs w)
             (p := (argobjs w p @ replicate (Suc i - length (argobjs w p)) Undefined)[i := x])\<rparr>
     | _ \<Rightarrow> w)"

definition F1 :: code where
  "F1 f this args w =
     (if f = 10 then (Inl (Thrown (Str ''boom'')), w)
      else if f = 12 then
        (Inr Undefined,
         set_index (index w (Array args) 2) 2 (Num 99)
           (set_index (index w (Array args) 2) 0 (Obj 3)
              (snd (record_call f this args w))))
      else record_call f this args w)"

definition F0 :: code where
  "F0 f this args w =
     (if f = 8 then hasListeners (Obj 1) ''x:changed'' w else F1 f this args w)"

fun G0 :: guid where
  "G0 (Obj n) = CHR ''o'' # replicate n CHR ''|''"
| "G0 (Func n) = CHR ''f'' # replicate n CHR ''|''"
| "G0 Null = ''(null)''"
| "G0 v = ''(other)''"

definition w_init :: world where
  "w_init = \<lparr>heap = (\<lambda>r n. DAList.empty), metas = (\<lambda>n. None), argobjs = (\<lambda>p. []),
             fresh = 100\<rparr>"

definition calls :: "world \<Rightarrow> val" where
  "calls w = property w User LOG ''calls''"

text \<open>Three listeners on the event \<^verbatim>\<open>e\<close> of \<open>Obj 1\<close>: two methods of the target
  \<open>Obj 2\<close> and one of the target \<open>Obj 3\<close>.\<close>

definition w_three :: world where
  "w_three =
     snd (addListener G0 F1 (Obj 1) ''e'' (Obj 3) (Func 4) Undefined
       (snd (addListener G0 F1 (Obj 1) ''e'' (Obj 2) (Func 5) Undefined
         (snd (addListener G0 F1 (Obj 1) ''e'' (Obj 2) (Func 4) Undefined w_init)))))"

text \<open>One listener with a transform, the same listener registered again with another
  transform, and a second listener without transform beside the first.\<close>

definition w_reg1 :: world where
  "w_reg1 = snd (addListener G0 F1 (Obj 1) ''e'' (Obj 2) (Func 4) (Func 6) w_init)"

definition w_reg2 :: world where
  "w_reg2 = snd (addListener G0 F1 (Obj 1) ''e'' (Obj 2) (Func 4) (Func 7) w_reg1)"






text \<open>The same two listeners, the first with the transform at address 12, which writes
  to the \<^verbatim>\<open>arguments\<close> object.\<close>

definition w_writing :: world where
  "w_writing =
     snd (addListener G0 F1 (Obj 1) ''e'' (Obj 3) (Func 5) Undefined
       (snd (addListener G0 F1 (Obj 1) ''e'' (Obj 2) (Func 4) (Func 12) w_init)))"

text \<open>Three listeners, the second of which throws.\<close>

definition w_boom :: world where
  "w_boom =
     snd (addListener G0 F1 (Obj 1) ''e'' (Obj 3) (Func 5) Undefined
       (snd (addListener G0 F1 (Obj 1) ''e'' (Obj 2) (Func 10) Undefined
         (snd (addListener G0 F1 (Obj 1) ''e'' (Obj 2) (Func 4) Undefined w_init)))))"

text \<open>The scenario of \<open>deferEvent\<close>: the listener L1 (the function at address 4, on
  the target \<open>Obj 2\<close>) is registered on the event \<^verbatim>\<open>e\<close>; the closure is taken with the
  arguments 1 and 2; then L2 (the function at address 5) is registered.\<close>

definition w_L1 :: world where
  "w_L1 = snd (addListener G0 F1 (Obj 1) ''e'' (Obj 2) (Func 4) Undefined w_init)"

definition closure_L1 :: deferred where
  "closure_L1 =
     \<lparr>d_actions = live_actions w_L1 (Obj 1) ''e'', d_params = Arguments (fresh w_L1)\<rparr>"

definition w_L1_deferred :: world where
  "w_L1_deferred = snd (deferEvent (Obj 1) ''e'' [Num 1, Num 2] w_L1)"

definition w_L2 :: world where
  "w_L2 = snd (addListener G0 F1 (Obj 1) ''e'' (Obj 2) (Func 5) Undefined w_L1_deferred)"

text \<open>Removing the second of the three listeners of \<open>w_three\<close>.\<close>

definition w_removed :: world where
  "w_removed = snd (removeListener G0 F1 (Obj 1) ''e'' (Obj 2) (Func 5) w_three)"

text \<open>The listener of \<^verbatim>\<open>x:changed\<close>, and the store after it has been suspended around
  the function at address 8 of \<open>F0\<close>.\<close>

definition w_changed :: world where
  "w_changed = snd (addListener G0 F0 (Obj 1) ''x:changed'' (Obj 2) (Func 4) Undefined w_init)"

definition w_suspended :: world where
  "w_suspended =
     snd (suspendListener G0 F0 (Obj 1) ''x:changed'' (Obj 2) (Func 4) (Func 8) w_changed)"

text \<open>Three listeners, the second of which has a transform that throws.\<close>

definition w_boomx :: world where
  "w_boomx =
     snd (addListener G0 F1 (Obj 1) ''e'' (Obj 3) (Func 5) Undefined
       (snd (addListener G0 F1 (Obj 1) ''e'' (Obj 2) (Func 5) (Func 10)
         (snd (addListener G0 F1 (Obj 1) ''e'' (Obj 2) (Func 4) Undefined w_init)))))"

text \<open>The stores of a fire without arguments on \<open>w_boom\<close> and on \<open>w_boomx\<close> when the
  turn of the throwing listener comes: the \<^verbatim>\<open>arguments\<close> object has been created and
  the two keys before the listener in its action set have been visited.\<close>

definition w_boom_turn :: world where
  "w_boom_turn =
     snd (snd (iterate_methods (invokeAction_cb F1) (Obj 103)
                 [''__ember_source__'', G0 (Func 4)] (Arguments (fresh w_boom)) ()
                 (snd (new_arguments [Obj 1, Str ''e''] w_boom))))"

definition w_boomx_turn :: world where
  "w_boomx_turn =
     snd (snd (iterate_methods (invokeAction_cb F1) (Obj 103)
                 [''__ember_source__'', G0 (Func 4)] (Arguments (fresh w_boomx)) ()
                 (snd (new_arguments [Obj 1, Str ''e''] w_boomx))))"

text \<open>\<open>hasListeners\<close>, a registration, \<open>hasListeners\<close>, the removal,
  \<open>hasListeners\<close>, and the registration again.\<close>

definition w_c1 :: world where
  "w_c1 = snd (hasListeners (Obj 1) ''e'' w_init)"

definition w_c2 :: world where
  "w_c2 = snd (addListener G0 F1 (Obj 1) ''e'' (Obj 2) (Func 4) Undefined w_c1)"

definition w_c3 :: world where
  "w_c3 = snd (removeListener G0 F1 (Obj 1) ''e'' (Obj 2) (Func 4) w_c2)"

definition w_c4 :: world where
  "w_c4 = snd (hasListeners (Obj 1) ''e'' w_c3)"

definition w_c5 :: world where
  "w_c5 = snd (addListener G0 F1 (Obj 1) ''e'' (Obj 2) (Func 4) Undefined w_c4)"

section \<open>Lemmas\<close>

lemma registry_kept_refl [simp]: "registry_kept w w"
  by (simp add: registry_kept_def)

lemma registry_kept_trans: "registry_kept w w1 \<Longrightarrow> registry_kept w1 w2 \<Longrightarrow> registry_kept w w2"
  by (auto simp: registry_kept_def)

lemma kept_property: "registry_kept w w' \<Longrightarrow> r \<noteq> User \<Longrightarrow> property w' r v k = property w r v k"
  by (auto simp: registry_kept_def property_def split: option.splits)

lemma kept_keys: "registry_kept w w' \<Longrightarrow> r \<noteq> User \<Longrightarrow> keys w' r v = keys w r v"
  by (auto simp: registry_kept_def keys_def split: option.splits)

lemma kept_call:
  "registry_untouched F \<Longrightarrow> call F fv this args w = (r, w') \<Longrightarrow> registry_kept w w'"
  by (cases fv) (auto simp: call_def registry_untouched_def dest!: arg_cong[where f=snd] spec)

lemma kept_invokeAction:
  assumes "registry_untouched F" and "invokeAction F action params w = (r, w')"
  shows "registry_kept w w'"
  using assms(2) kept_call[OF assms(1)]
  unfolding invokeAction_def Let_def
  by (auto split: sum.splits prod.splits val.splits if_splits)

lemma kept_invokeActions:
  assumes "registry_untouched F"
  shows "invokeActions F actions params w = (r, w') \<Longrightarrow> registry_kept w w'"
proof (induction actions arbitrary: w)
  case Nil
  then show ?case by simp
next
  case (Cons a actions)
  obtain r1 w1 where a: "invokeAction F a params w = (r1, w1)" by (cases "invokeAction F a params w")
  have k: "registry_kept w w1" using kept_invokeAction[OF assms a] .
  show ?case
  proof (cases r1)
    case (Inl e)
    with Cons.prems a k show ?thesis by simp
  next
    case (Inr v)
    with Cons.prems a have "invokeActions F actions params w1 = (r, w')" by simp
    from Cons.IH[OF this] k show ?thesis by (rule registry_kept_trans[rotated])
  qed
qed

lemma kept_object_sendEvent:
  assumes "registry_untouched F" and "object_sendEvent F obj args1 w = (r, w')"
  shows "registry_kept w w'"
  using assms(2) kept_call[OF assms(1)]
  unfolding object_sendEvent_def
  by (auto split: sum.splits prod.splits if_splits)

lemma invokeAction_value:
  "invokeAction F action params w = (Inr r, w') \<Longrightarrow> r = Undefined"
  unfolding invokeAction_def Let_def
  by (auto split: sum.splits prod.splits val.splits if_splits)

lemma iterate_methods_invoke:
  assumes F: "registry_untouched F"
  shows "registry_kept w0 w \<Longrightarrow>
    iterate_methods (invokeAction_cb F) actionSet mgs params () w =
     (case invokeActions F
        (map (\<lambda>mg. property w0 (Hash 3) actionSet mg)
          (filter (\<lambda>mg. \<not> SKIP_PROPERTIES mg \<and> truthy (property w0 (Hash 3) actionSet mg)) mgs))
        params w of
        (Inl e, w1) \<Rightarrow> (Inl e, (), w1)
      | (Inr r, w1) \<Rightarrow> (Inr False, (), w1))"
proof (induction mgs arbitrary: w)
  case Nil
  then show ?case by simp
next
  case (Cons mg mgs)
  have p: "property w (Hash 3) actionSet mg = property w0 (Hash 3) actionSet mg"
    using Cons.prems by (simp add: kept_property)
  show ?case
  proof (cases "\<not> SKIP_PROPERTIES mg \<and> truthy (property w0 (Hash 3) actionSet mg)")
    case False
    then show ?thesis using Cons.IH[OF Cons.prems] p by auto
  next
    case True
    obtain r1 w1 where a: "invokeAction F (property w0 (Hash 3) actionSet mg) params w = (r1, w1)"
      by (cases "invokeAction F (property w0 (Hash 3) actionSet mg) params w")
    have k: "registry_kept w0 w1"
      using kept_invokeAction[OF F a] Cons.prems by (rule registry_kept_trans[rotated])
    show ?thesis
    proof (cases r1)
      case (Inl e)
      then show ?thesis using True p a by (simp add: invokeAction_cb_def)
    next
      case (Inr v)
      then have "v = Undefined" using a invokeAction_value by blast
      then show ?thesis using True p a Inr Cons.IH[OF k] by (simp add: invokeAction_cb_def)
    qed
  qed
qed

lemma invokeActions_append:
  "invokeActions F (xs @ ys) params w =
    (case invokeActions F xs params w of
       (Inl e, w1) \<Rightarrow> (Inl e, w1)
     | (Inr r, w1) \<Rightarrow> invokeActions F ys params w1)"
  by (induction xs arbitrary: w) (auto split: prod.splits sum.splits)

lemma map_snd_live_methods:
  "map snd (live_methods w actionSet) =
     map (\<lambda>mg. property w (Hash 3) actionSet mg)
       (filter (\<lambda>mg. \<not> SKIP_PROPERTIES mg \<and> truthy (property w (Hash 3) actionSet mg))
          (keys w (Hash 3) actionSet))"
  by (simp add: live_methods_def comp_def)

lemma map_snd_live_slots:
  "map snd (live_slots w targetSet) = live_of_targets w targetSet (keys w (Hash 2) targetSet)"
  by (simp add: live_slots_def live_of_targets_def map_concat comp_def case_prod_unfold)

lemma iterate_targets_invoke:
  assumes F: "registry_untouched F"
  shows "registry_kept w0 w \<Longrightarrow>
    iterate_targets (invokeAction_cb F) targetSet tgs params () w =
     (case invokeActions F (live_of_targets w0 targetSet tgs) params w of
        (Inl e, w1) \<Rightarrow> (Inl e, (), w1)
      | (Inr r, w1) \<Rightarrow> (Inr False, (), w1))"
proof (induction tgs arbitrary: w)
  case Nil
  then show ?case by (simp add: live_of_targets_def)
next
  case (Cons tg tgs)
  let ?as = "property w0 (Hash 2) targetSet tg"
  have p: "property w (Hash 2) targetSet tg = ?as"
    using Cons.prems by (simp add: kept_property)
  have ks: "keys w (Hash 3) ?as = keys w0 (Hash 3) ?as"
    using Cons.prems by (simp add: kept_keys)
  show ?case
  proof (cases "\<not> SKIP_PROPERTIES tg \<and> truthy ?as")
    case False
    then show ?thesis using Cons.IH[OF Cons.prems] p by (auto simp: live_of_targets_def)
  next
    case True
    have split: "live_of_targets w0 targetSet (tg # tgs) =
        map snd (live_methods w0 ?as) @ live_of_targets w0 targetSet tgs"
      using True by (simp add: live_of_targets_def)
    obtain r1 w1 where a: "invokeActions F (map snd (live_methods w0 ?as)) params w = (r1, w1)"
      by (cases "invokeActions F (map snd (live_methods w0 ?as)) params w")
    have k: "registry_kept w0 w1"
      using kept_invokeActions[OF F a] Cons.prems by (rule registry_kept_trans[rotated])
    have m: "iterate_methods (invokeAction_cb F) ?as (keys w0 (Hash 3) ?as) params () w =
        (case (r1, w1) of (Inl e, w1) \<Rightarrow> (Inl e, (), w1) | (Inr r, w1) \<Rightarrow> (Inr False, (), w1))"
      using iterate_methods_invoke[OF F Cons.prems, of ?as "keys w0 (Hash 3) ?as" params] a
      by (simp add: map_snd_live_methods)
    show ?thesis
    proof (cases r1)
      case (Inl e)
      then show ?thesis using True p ks m a by (simp add: split invokeActions_append)
    next
      case (Inr v)
      then show ?thesis using True p ks m a Cons.IH[OF k] by (simp add: split invokeActions_append)
    qed
  qed
qed

lemma iterateSet_invoke:
  assumes F: "registry_untouched F"
  shows "iterateSet targetSet (invokeAction_cb F) params () w =
     (case invokeActions F (map snd (live_slots w targetSet)) params w of
        (Inl e, w1) \<Rightarrow> (Inl e, (), w1)
      | (Inr r, w1) \<Rightarrow> (Inr False, (), w1))"
proof (cases "truthy targetSet")
  case True
  then show ?thesis
    using iterate_targets_invoke[OF F registry_kept_refl, of targetSet "keys w (Hash 2) targetSet" params w]
    by (simp add: iterateSet_def map_snd_live_slots)
next
  case False
  then have "ref_of targetSet = None" by (cases targetSet) auto
  then have "keys w (Hash 2) targetSet = []" by (simp add: keys_def)
  with False show ?thesis by (simp add: iterateSet_def live_slots_def)
qed

lemma targetSetFor_world: "snd (targetSetFor obj ev w) = w"
  by (auto simp: targetSetFor_def meta_def Let_def split: option.splits prod.splits sum.splits)

lemma meta_read: "snd (meta obj False w) = w"
  by (auto simp: meta_def split: option.splits)

lemma meta_read_kept:
  "registry_kept w w' \<Longrightarrow> fst (meta obj False w') = fst (meta obj False w)"
  by (auto simp: meta_def registry_kept_def split: option.splits)

lemma targetSetFor_kept:
  assumes "registry_kept w w'"
  shows "fst (targetSetFor obj ev w') = fst (targetSetFor obj ev w)"
proof -
  obtain r where r: "meta obj False w = (r, w)"
    using meta_read[of obj w] by (cases "meta obj False w") simp
  have r': "meta obj False w' = (r, w')"
    using meta_read[of obj w'] meta_read_kept[OF assms, of obj] r
    by (cases "meta obj False w'") simp
  show ?thesis
    unfolding targetSetFor_def r r'
    by (cases r) (simp_all add: Let_def kept_property[OF assms])
qed

lemma targetSetFor_not_nullish:
  "\<not> nullish obj \<Longrightarrow> \<exists>ts. targetSetFor obj ev w = (Inr ts, w)"
  by (auto simp: targetSetFor_def meta_def Let_def split: option.splits)

lemma case_new_arguments:
  "(case new_arguments vs w of (a, w0) \<Rightarrow> f a w0) =
     f (Arguments (fresh w)) (snd (new_arguments vs w))"
  by (simp add: new_arguments_def)

lemma new_arguments_kept [simp]: "registry_kept w (snd (new_arguments vs w))"
  by (simp add: new_arguments_def registry_kept_def)

lemma elements_new_arguments [simp]:
  "elements (snd (new_arguments vs w)) (Arguments (fresh w)) = vs"
  by (simp add: new_arguments_def)

lemma argobjs_new_arguments [simp]:
  "argobjs (snd (new_arguments vs w)) (fresh w) = vs"
  by (simp add: new_arguments_def)

lemma fresh_new_arguments [simp]: "fresh (snd (new_arguments vs w)) = Suc (fresh w)"
  by (simp add: new_arguments_def)

lemma heap_new_arguments [simp]: "heap (snd (new_arguments vs w)) = heap w"
  by (simp add: new_arguments_def)

lemma metas_new_arguments [simp]: "metas (snd (new_arguments vs w)) = metas w"
  by (simp add: new_arguments_def)

lemma property_new_arguments [simp]:
  "property (snd (new_arguments vs w)) r v k = property w r v k"
  by (simp add: property_def split: option.splits)

lemma targetSetFor_new_arguments:
  "targetSetFor obj ev w = (Inr ts, w) \<Longrightarrow>
   targetSetFor obj ev (snd (new_arguments vs w)) = (Inr ts, snd (new_arguments vs w))"
  using targetSetFor_kept[OF new_arguments_kept, of obj ev vs w]
        targetSetFor_world[of obj ev "snd (new_arguments vs w)"]
  by (cases "targetSetFor obj ev (snd (new_arguments vs w))") simp

lemma sendEvent_eq:
  assumes F: "registry_untouched F" and obj: "\<not> nullish obj"
  shows "sendEvent F obj ev args w =
    (case object_sendEvent F obj (Str ev # args) (snd (new_arguments (obj # Str ev # args) w)) of
       (Inl e, w1) \<Rightarrow> (Inl e, w1)
     | (Inr u, w1) \<Rightarrow>
        (case invokeActions F (live_actions w obj ev) (Arguments (fresh w)) w1 of
           (Inl e, w2) \<Rightarrow> (Inl e, w2)
         | (Inr r, w2) \<Rightarrow> (Inr (Bool True), w2)))"
proof -
  let ?w0 = "snd (new_arguments (obj # Str ev # args) w)"
  obtain r1 w1 where h: "object_sendEvent F obj (Str ev # args) ?w0 = (r1, w1)"
    by (cases "object_sendEvent F obj (Str ev # args) ?w0")
  have k: "registry_kept w w1"
    using registry_kept_trans[OF new_arguments_kept kept_object_sendEvent[OF F h]] .
  obtain ts where t: "targetSetFor obj ev w = (Inr ts, w)"
    using targetSetFor_not_nullish[OF obj] by blast
  have t1: "targetSetFor obj ev w1 = (Inr ts, w1)"
    using targetSetFor_kept[OF k, of obj ev] targetSetFor_world[of obj ev w1] t
    by (cases "targetSetFor obj ev w1") simp
  have ls: "live_slots w1 ts = live_slots w ts"
    using k by (simp add: live_slots_def live_methods_def kept_property kept_keys)
  have la: "live_actions w obj ev = map snd (live_slots w ts)"
    using t by (simp add: live_actions_def live_slots_of_def targetSet_of_def)
  show ?thesis
    unfolding sendEvent_def case_new_arguments
    by (cases r1) (auto simp: h t1 iterateSet_invoke[OF F] ls la split: prod.splits sum.splits)
qed

lemma lookup_update_alist:
  "DAList.lookup (DAList.update k x al) k' = (if k' = k then Some x else DAList.lookup al k')"
  by (auto simp: DAList.lookup_update)

lemma keys_update_alist:
  "map fst (DAList.impl_of (DAList.update k x al)) =
     (if k \<in> set (map fst (DAList.impl_of al)) then map fst (DAList.impl_of al)
      else map fst (DAList.impl_of al) @ [k])"
  by (simp add: update.rep_eq update_keys)

lemma property_store:
  "property (store r v k x w) r' v' k' =
     (if r' = r \<and> ref_of v \<noteq> None \<and> ref_of v' = ref_of v \<and> k' = k then x
      else property w r' v' k')"
  by (auto simp: property_def store_def lookup_update_alist split: option.splits)

lemma keys_store:
  "keys (store r v k x w) r' v' =
     (if r' = r \<and> ref_of v \<noteq> None \<and> ref_of v' = ref_of v \<and> k \<notin> set (keys w r' v')
      then keys w r' v' @ [k] else keys w r' v')"
  by (auto simp: keys_def store_def keys_update_alist split: option.splits)

lemma metas_store [simp]: "metas (store r v k x w) = metas w"
  by (simp add: store_def split: option.splits)

lemma fresh_store [simp]: "fresh (store r v k x w) = fresh w"
  by (simp add: store_def split: option.splits)

lemma heap_store_other: "r' \<noteq> r \<Longrightarrow> heap (store r v k x w) r' = heap w r'"
  by (simp add: store_def split: option.splits)

lemma fst_alloc [simp]: "fst (alloc r ps w) = Obj (fresh w)"
  by (simp add: alloc_def)

lemma property_alloc:
  "property (snd (alloc r ps w)) r' v' k' =
     (if r' = r \<and> ref_of v' = Some (fresh w)
      then (case DAList.lookup ps k' of None \<Rightarrow> Undefined | Some x \<Rightarrow> x)
      else property w r' v' k')"
  by (auto simp: property_def alloc_def split: option.splits)

lemma keys_alloc:
  "keys (snd (alloc r ps w)) r' v' =
     (if r' = r \<and> ref_of v' = Some (fresh w) then map fst (DAList.impl_of ps)
      else keys w r' v')"
  by (auto simp: keys_def alloc_def split: option.splits)

lemma metas_alloc [simp]: "metas (snd (alloc r ps w)) = metas w"
  by (simp add: alloc_def)

lemma fresh_alloc [simp]: "fresh (snd (alloc r ps w)) = Suc (fresh w)"
  by (simp add: alloc_def)

lemma heap_alloc_other: "r' \<noteq> r \<Longrightarrow> heap (snd (alloc r ps w)) r' = heap w r'"
  by (simp add: alloc_def)

lemma falsy_no_ref: "\<not> truthy v \<Longrightarrow> ref_of v = None"
  by (cases v) auto

lemma property_no_ref [simp]: "ref_of v = None \<Longrightarrow> property w r v k = Undefined"
  by (simp add: property_def)

lemma walk_ro_no_ref: "ref_of m = None \<Longrightarrow> ks \<noteq> [] \<Longrightarrow> walk_ro w d m ks = Undefined"
proof (induction ks arbitrary: d m)
  case Nil
  then show ?case by simp
next
  case (Cons k ks)
  then show ?case by (cases ks) simp_all
qed

lemma walk_frame:
  "metaPath_walk obj d m path wr w = (v, w') \<Longrightarrow>
     metas w' = metas w \<and> fresh w \<le> fresh w' \<and>
     heap w' User = heap w User \<and> heap w' Action = heap w Action \<and>
     (\<forall>d'<d. heap w' (Hash d') = heap w (Hash d'))"
proof (induction path arbitrary: d m w)
  case Nil
  then show ?case by simp
next
  case (Cons k ks)
  let ?link = "property w (Hash d) m k"
  show ?case
  proof (cases "truthy ?link")
    case True
    with Cons.prems have "metaPath_walk obj (Suc d) ?link ks wr w = (v, w')" by simp
    from Cons.IH[OF this] show ?thesis by auto
  next
    case False
    show ?thesis
    proof (cases wr)
      case False
      with \<open>\<not> truthy ?link\<close> Cons.prems show ?thesis by simp
    next
      case True
      let ?a = "alloc (Hash (Suc d)) (DAList.update ''__ember_source__'' obj DAList.empty) w"
      let ?w2 = "store (Hash d) m k (fst ?a) (snd ?a)"
      have "metaPath_walk obj (Suc d) (fst ?a) ks wr ?w2 = (v, w')"
        using Cons.prems True \<open>\<not> truthy ?link\<close> by (simp add: case_prod_unfold)
      from Cons.IH[OF this] show ?thesis
        by (auto simp: heap_store_other heap_alloc_other)
    qed
  qed
qed

lemma walk_ro_append:
  "walk_ro w d m (ks @ [k]) = property w (Hash (d + length ks)) (walk_ro w d m ks) k"
  by (induction ks arbitrary: d m) simp_all

lemma walk_ro_cong:
  "(\<forall>d' v k. d \<le> d' \<longrightarrow> property w' (Hash d') v k = property w (Hash d') v k) \<Longrightarrow>
   walk_ro w' d m ks = walk_ro w d m ks"
  by (induction ks arbitrary: d m) simp_all

lemma walk_existing:
  "truthy (walk_ro w d m path) \<Longrightarrow> metaPath_walk obj d m path wr w = (walk_ro w d m path, w)"
proof (induction path arbitrary: d m)
  case Nil
  then show ?case by simp
next
  case (Cons k ks)
  have "truthy (property w (Hash d) m k)"
  proof (rule ccontr)
    assume "\<not> truthy (property w (Hash d) m k)"
    then have n: "ref_of (property w (Hash d) m k) = None" by (rule falsy_no_ref)
    show False
    proof (cases ks)
      case Nil
      with Cons.prems \<open>\<not> truthy (property w (Hash d) m k)\<close> show False by simp
    next
      case (Cons k' ks')
      with Cons.prems walk_ro_no_ref[OF n, of ks w "Suc d"] show False by simp
    qed
  qed
  with Cons show ?case by simp
qed

lemma property_eq_heap: "heap w' r = heap w r \<Longrightarrow> property w' r v k = property w r v k"
  by (auto simp: property_def split: option.splits)

lemma walk_neg:
  "metaPath_walk obj d m path True w = (v, w') \<Longrightarrow> path \<noteq> [] \<Longrightarrow>
     walk_ro w' d m path = v \<or> \<not> truthy (walk_ro w' d m path)"
proof (induction path arbitrary: d m w)
  case Nil
  then show ?case by simp
next
  case (Cons k ks)
  show ?case
  proof (cases "ref_of m")
    case None
    then show ?thesis using walk_ro_no_ref[OF None, of "k # ks" w' d] by simp
  next
    case (Some n)
    let ?link = "property w (Hash d) m k"
    show ?thesis
    proof (cases "truthy ?link")
      case True
      with Cons.prems have step: "metaPath_walk obj (Suc d) ?link ks True w = (v, w')" by simp
      have "heap w' (Hash d) = heap w (Hash d)" using walk_frame[OF step] by simp
      then have p: "property w' (Hash d) m k = ?link" by (rule property_eq_heap)
      show ?thesis
      proof (cases ks)
        case Nil
        with step p show ?thesis by auto
      next
        case (Cons k' ks')
        with Cons.IH[OF step] p show ?thesis by simp
      qed
    next
      case False
      let ?a = "alloc (Hash (Suc d)) (DAList.update ''__ember_source__'' obj DAList.empty) w"
      let ?w2 = "store (Hash d) m k (fst ?a) (snd ?a)"
      have step: "metaPath_walk obj (Suc d) (fst ?a) ks True ?w2 = (v, w')"
        using Cons.prems False by (simp add: case_prod_unfold)
      have "heap w' (Hash d) = heap ?w2 (Hash d)" using walk_frame[OF step] by simp
      then have "property w' (Hash d) m k = property ?w2 (Hash d) m k" by (rule property_eq_heap)
      then have p: "property w' (Hash d) m k = fst ?a" using Some by (simp add: property_store)
      show ?thesis
      proof (cases ks)
        case Nil
        with step p show ?thesis by auto
      next
        case (Cons k' ks')
        with Cons.IH[OF step] p show ?thesis by simp
      qed
    qed
  qed
qed

lemma well_formed_new_hash:
  assumes "well_formed w" and "ref_of obj \<noteq> None"
  shows "well_formed (store (Hash d) m k (Obj f)
           (snd (alloc (Hash d') (DAList.update ''__ember_source__'' obj DAList.empty) w)))"
  using assms unfolding well_formed_def
  by (auto simp: property_store property_alloc lookup_update_alist split: if_splits)

lemma walk_pos:
  "metaPath_walk obj d m path True w = (v, w') \<Longrightarrow> path \<noteq> [] \<Longrightarrow> well_formed w \<Longrightarrow>
   ref_of obj \<noteq> None \<Longrightarrow> ref_of m \<noteq> None \<Longrightarrow>
     walk_ro w' d m path = v \<and> ref_of v \<noteq> None \<and> well_formed w'"
proof (induction path arbitrary: d m w)
  case Nil
  then show ?case by simp
next
  case (Cons k ks)
  let ?link = "property w (Hash d) m k"
  show ?case
  proof (cases "truthy ?link")
    case True
    with Cons.prems have step: "metaPath_walk obj (Suc d) ?link ks True w = (v, w')" by simp
    have r: "ref_of ?link \<noteq> None" using True Cons.prems(3) by (simp add: well_formed_def)
    have "heap w' (Hash d) = heap w (Hash d)" using walk_frame[OF step] by simp
    then have p: "property w' (Hash d) m k = ?link" by (rule property_eq_heap)
    show ?thesis
    proof (cases ks)
      case Nil
      with step p r Cons.prems show ?thesis by auto
    next
      case (Cons k' ks')
      then have "ks \<noteq> []" by simp
      from Cons.IH[OF step this \<open>well_formed w\<close> \<open>ref_of obj \<noteq> None\<close> r] p show ?thesis by simp
    qed
  next
    case False
    let ?a = "alloc (Hash (Suc d)) (DAList.update ''__ember_source__'' obj DAList.empty) w"
    let ?w2 = "store (Hash d) m k (fst ?a) (snd ?a)"
    have step: "metaPath_walk obj (Suc d) (fst ?a) ks True ?w2 = (v, w')"
      using Cons.prems False by (simp add: case_prod_unfold)
    have wf2: "well_formed ?w2"
      using well_formed_new_hash[OF Cons.prems(3,4)] by simp
    have "heap w' (Hash d) = heap ?w2 (Hash d)" using walk_frame[OF step] by simp
    then have "property w' (Hash d) m k = property ?w2 (Hash d) m k" by (rule property_eq_heap)
    then have p: "property w' (Hash d) m k = fst ?a" using Cons.prems(5) by (simp add: property_store)
    show ?thesis
    proof (cases ks)
      case Nil
      with step p wf2 show ?thesis by auto
    next
      case (Cons k' ks')
      then have "ks \<noteq> []" by simp
      from Cons.IH[OF step this wf2 \<open>ref_of obj \<noteq> None\<close>] p show ?thesis by simp
    qed
  qed
qed

lemma iterate_methods_push:
  "iterate_methods push_cb actionSet mgs params acc w =
     (Inr False,
      acc @ map (\<lambda>mg. property w (Hash 3) actionSet mg)
              (filter (\<lambda>mg. \<not> SKIP_PROPERTIES mg \<and> truthy (property w (Hash 3) actionSet mg)) mgs),
      w)"
  by (induction mgs arbitrary: acc) (simp_all add: push_cb_def)

lemma live_of_targets_Cons:
  "live_of_targets w targetSet (tg # tgs) =
     (if \<not> SKIP_PROPERTIES tg \<and> truthy (property w (Hash 2) targetSet tg)
      then map snd (live_methods w (property w (Hash 2) targetSet tg)) else [])
     @ live_of_targets w targetSet tgs"
  by (simp add: live_of_targets_def)

lemma live_of_targets_Nil [simp]: "live_of_targets w targetSet [] = []"
  by (simp add: live_of_targets_def)

lemma iterate_targets_push:
  "iterate_targets push_cb targetSet tgs params acc w =
     (Inr False, acc @ live_of_targets w targetSet tgs, w)"
proof (induction tgs arbitrary: acc)
  case Nil
  then show ?case by simp
next
  case (Cons tg tgs)
  show ?case
    by (simp add: Cons.IH live_of_targets_Cons iterate_methods_push map_snd_live_methods Let_def)
qed

lemma iterateSet_push:
  "iterateSet targetSet push_cb params [] w = (Inr False, map snd (live_slots w targetSet), w)"
proof (cases "truthy targetSet")
  case True
  then show ?thesis by (simp add: iterateSet_def iterate_targets_push map_snd_live_slots)
next
  case False
  then have "ref_of targetSet = None" by (rule falsy_no_ref)
  then have "keys w (Hash 2) targetSet = []" by (simp add: keys_def)
  with False show ?thesis by (simp add: iterateSet_def live_slots_def)
qed

lemma iterate_methods_true:
  "iterate_methods true_cb actionSet mgs params () w =
     (Inr (filter (\<lambda>mg. \<not> SKIP_PROPERTIES mg \<and> truthy (property w (Hash 3) actionSet mg)) mgs \<noteq> []),
      (), w)"
  by (induction mgs) (simp_all add: true_cb_def)

lemma iterate_targets_true:
  "iterate_targets true_cb targetSet tgs params () w =
     (Inr (live_of_targets w targetSet tgs \<noteq> []), (), w)"
proof (induction tgs)
  case Nil
  then show ?case by simp
next
  case (Cons tg tgs)
  show ?case
    by (simp add: Cons.IH live_of_targets_Cons iterate_methods_true map_snd_live_methods Let_def split: bool.splits)
qed

lemma iterateSet_true:
  "iterateSet targetSet true_cb params () w = (Inr (live_slots w targetSet \<noteq> []), (), w)"
proof (cases "truthy targetSet")
  case True
  have "(live_of_targets w targetSet (keys w (Hash 2) targetSet) \<noteq> []) = (live_slots w targetSet \<noteq> [])"
    unfolding map_snd_live_slots[symmetric] by simp
  with True show ?thesis
    by (simp add: iterateSet_def iterate_targets_true)
next
  case False
  then have "ref_of targetSet = None" by (rule falsy_no_ref)
  then have "keys w (Hash 2) targetSet = []" by (simp add: keys_def)
  with False show ?thesis by (simp add: iterateSet_def live_slots_def)
qed

lemma truthy_property_key: "truthy (property w r v k) \<Longrightarrow> k \<in> set (keys w r v)"
  by (auto simp: property_def keys_def lookup.rep_eq dest!: map_of_SomeD split: option.splits
      intro!: image_eqI[where x="(k, _)"])

lemma distinct_keys: "distinct (keys w r v)"
  by (simp add: keys_def split: option.splits)

lemma mem_live_methods:
  "(mg, a) \<in> set (live_methods w actionSet) \<longleftrightarrow>
     \<not> SKIP_PROPERTIES mg \<and> a = property w (Hash 3) actionSet mg \<and> truthy a"
  by (auto simp: live_methods_def truthy_property_key)

lemma distinct_live_methods: "distinct (map fst (live_methods w actionSet))"
  by (simp add: live_methods_def comp_def distinct_keys)

lemma mem_live_slots:
  "((tg, mg), a) \<in> set (live_slots w targetSet) \<longleftrightarrow>
     \<not> SKIP_PROPERTIES tg \<and> \<not> SKIP_PROPERTIES mg \<and>
     a = property w (Hash 3) (property w (Hash 2) targetSet tg) mg \<and> truthy a"
proof -
  have t: "truthy (property w (Hash 3) (property w (Hash 2) targetSet tg) mg) \<Longrightarrow>
        truthy (property w (Hash 2) targetSet tg)"
    by (cases "truthy (property w (Hash 2) targetSet tg)") (auto dest: falsy_no_ref)
  have "((tg, mg), a) \<in> set (live_slots w targetSet) \<longleftrightarrow>
     tg \<in> set (keys w (Hash 2) targetSet) \<and> \<not> SKIP_PROPERTIES tg \<and>
     truthy (property w (Hash 2) targetSet tg) \<and>
     (mg, a) \<in> set (live_methods w (property w (Hash 2) targetSet tg))"
    by (auto simp: live_slots_def)
  then show ?thesis
    using t by (auto simp: mem_live_methods truthy_property_key)
qed

lemma distinct_tagged:
  "distinct ts \<Longrightarrow> (\<And>t. distinct (map fst (f t))) \<Longrightarrow>
   distinct (map fst (concat (map (\<lambda>t. map (\<lambda>(m, a). ((t, m), a)) (f t)) ts)))"
proof (induction ts)
  case Nil
  then show ?case by simp
next
  case (Cons t ts)
  have d: "distinct (map fst (map (\<lambda>(m, a). ((t, m), a)) (f t)))"
    using Cons.prems(2)[of t] by (simp add: comp_def case_prod_unfold distinct_map inj_on_def)
  have "distinct (map fst (concat (map (\<lambda>t. map (\<lambda>(m, a). ((t, m), a)) (f t)) ts)))"
    using Cons by simp
  with d Cons.prems(1) show ?case by (auto simp: comp_def case_prod_unfold)
qed

lemma distinct_live_slots: "distinct (map fst (live_slots w targetSet))"
  unfolding live_slots_def
  by (rule distinct_tagged) (simp_all add: distinct_keys distinct_live_methods)

lemma ref_not_nullish: "ref_of obj \<noteq> None \<Longrightarrow> \<not> nullish obj"
  by (cases obj) auto

lemma meta_val_ref: "ref_of (meta_val w obj) \<noteq> None \<Longrightarrow>
   \<exists>n m. ref_of obj = Some n \<and> metas w n = Some m \<and> meta_val w obj = Obj m"
  by (auto simp: meta_val_def split: option.splits)

lemma meta_existing:
  "ref_of (meta_val w obj) \<noteq> None \<Longrightarrow> meta obj wr w = (Inr (meta_val w obj), w)"
  by (frule meta_val_ref) (auto simp: meta_def dest: ref_not_nullish[OF notI[unfolded not_not]] split: option.splits, (cases obj; simp)+)

lemma meta_write:
  assumes "ref_of obj \<noteq> None"
  shows "\<exists>w1. meta obj True w = (Inr (meta_val w1 obj), w1) \<and> ref_of (meta_val w1 obj) \<noteq> None \<and>
           heap w1 User = heap w User \<and> heap w1 Action = heap w Action \<and>
           (\<forall>d. heap w1 (Hash (Suc d)) = heap w (Hash (Suc d))) \<and> fresh w \<le> fresh w1 \<and>
           (well_formed w \<longrightarrow> well_formed w1)"
proof -
  obtain n where n: "ref_of obj = Some n" using assms by auto
  have nn: "\<not> nullish obj" using assms by (rule ref_not_nullish)
  show ?thesis
  proof (cases "metas w n")
    case (Some m)
    then show ?thesis using n nn by (auto simp: meta_def meta_val_def)
  next
    case None
    let ?w1 = "w\<lparr>heap := (heap w)(Hash 0 := (heap w (Hash 0))(fresh w := DAList.empty)),
                 metas := (metas w)(n \<mapsto> fresh w), fresh := Suc (fresh w)\<rparr>"
    have m: "meta obj True w = (Inr (Obj (fresh w)), ?w1)" using n nn None by (simp add: meta_def)
    have wf: "well_formed w \<Longrightarrow> well_formed ?w1"
      unfolding well_formed_def property_def
      by (auto split: option.splits if_splits)
    show ?thesis
      using m wf n by (intro exI[of _ ?w1]) (auto simp: meta_val_def)
  qed
qed

lemma meta_val_cong: "metas w' = metas w \<Longrightarrow> meta_val w' obj = meta_val w obj"
  by (auto simp: meta_val_def split: option.splits)

lemma registry_path_unfold:
  "registry_path w obj [a, b] =
     property w (Hash 1) (property w (Hash 0) (meta_val w obj) a) b"
  "registry_path w obj [a, b, c] =
     property w (Hash 2) (property w (Hash 1) (property w (Hash 0) (meta_val w obj) a) b) c"
  "registry_path w obj [a, b, c, d] =
     property w (Hash 3) (property w (Hash 2) (property w (Hash 1)
       (property w (Hash 0) (meta_val w obj) a) b) c) d"
  by (simp_all add: registry_path_def numeral_2_eq_2 numeral_3_eq_3)

lemma registry_path_walk_frame:
  assumes "metaPath_walk obj 0 m path wr w1 = (v, w')"
  shows "meta_val w' obj = meta_val w1 obj"
  using walk_frame[OF assms] by (intro meta_val_cong) simp

lemma metaPath_pos:
  assumes wf: "well_formed w" and obj: "ref_of obj \<noteq> None" and path: "path \<noteq> []"
  shows "\<exists>v w'. metaPath obj path True w = (Inr v, w') \<and> registry_path w' obj path = v \<and>
           ref_of v \<noteq> None \<and> well_formed w' \<and> heap w' User = heap w User \<and>
           heap w' Action = heap w Action \<and> fresh w \<le> fresh w'"
proof -
  obtain w1 where m: "meta obj True w = (Inr (meta_val w1 obj), w1)"
      and r: "ref_of (meta_val w1 obj) \<noteq> None"
      and f: "heap w1 User = heap w User" "heap w1 Action = heap w Action" "fresh w \<le> fresh w1"
      and wf1: "well_formed w1"
    using meta_write[OF obj, of w] wf by blast
  obtain v w' where s: "metaPath_walk obj 0 (meta_val w1 obj) path True w1 = (v, w')"
    by (cases "metaPath_walk obj 0 (meta_val w1 obj) path True w1")
  have p: "walk_ro w' 0 (meta_val w1 obj) path = v \<and> ref_of v \<noteq> None \<and> well_formed w'"
    using walk_pos[OF s path wf1 obj r] .
  have mv: "meta_val w' obj = meta_val w1 obj" using registry_path_walk_frame[OF s] .
  have "metaPath obj path True w = (Inr v, w')" using m s path by (simp add: metaPath_def)
  then show ?thesis
    using p mv f walk_frame[OF s] by (auto simp: registry_path_def)
qed

lemma metaPath_existing:
  assumes t: "truthy (registry_path w obj path)" and path: "path \<noteq> []"
  shows "metaPath obj path wr w = (Inr (registry_path w obj path), w)"
proof -
  have "ref_of (meta_val w obj) \<noteq> None"
  proof
    assume "ref_of (meta_val w obj) = None"
    from walk_ro_no_ref[OF this path, of w 0] t show False by (simp add: registry_path_def)
  qed
  then have m: "meta obj wr w = (Inr (meta_val w obj), w)" by (rule meta_existing)
  have "metaPath_walk obj 0 (meta_val w obj) path wr w = (walk_ro w 0 (meta_val w obj) path, w)"
    using t by (intro walk_existing) (simp add: registry_path_def)
  then show ?thesis using m path by (simp add: metaPath_def registry_path_def)
qed

lemma nullish_no_ref: "nullish obj \<Longrightarrow> ref_of obj = None"
  by (cases obj) auto

lemma meta_write_any:
  "meta obj True w = (r, w1) \<Longrightarrow>
     heap w1 User = heap w User \<and> heap w1 Action = heap w Action \<and>
     (\<forall>d. heap w1 (Hash (Suc d)) = heap w (Hash (Suc d))) \<and> fresh w \<le> fresh w1 \<and>
     (case r of Inl e \<Rightarrow> w1 = w \<and> ref_of (meta_val w obj) = None | Inr m \<Rightarrow> m = meta_val w1 obj)"
  by (auto simp: meta_def meta_val_def dest: nullish_no_ref split: option.splits if_splits)

lemma metaPath_neg:
  assumes "metaPath obj path True w = (r, w')" and path: "path \<noteq> []"
  shows "heap w' User = heap w User \<and> heap w' Action = heap w Action \<and> fresh w \<le> fresh w' \<and>
     (case r of Inl e \<Rightarrow> \<not> truthy (registry_path w' obj path)
      | Inr v \<Rightarrow> registry_path w' obj path = v \<or> \<not> truthy (registry_path w' obj path))"
proof -
  obtain r1 w1 where m: "meta obj True w = (r1, w1)" by (cases "meta obj True w")
  note mw = meta_write_any[OF m]
  show ?thesis
  proof (cases r1)
    case (Inl e)
    then have "w' = w" "r = Inl e" "ref_of (meta_val w obj) = None"
      using assms(1) m mw by (auto simp: metaPath_def)
    then show ?thesis using walk_ro_no_ref[of "meta_val w obj" path w 0] path
      by (simp add: registry_path_def)
  next
    case (Inr mm)
    obtain v where s: "metaPath_walk obj 0 mm path True w1 = (v, w')" and rv: "r = Inr v"
      using assms(1) m Inr path by (auto simp: metaPath_def split: prod.splits)
    have mv: "meta_val w' obj = mm" using registry_path_walk_frame[OF s] mw Inr by simp
    show ?thesis
      using walk_neg[OF s path] walk_frame[OF s] mw mv rv by (auto simp: registry_path_def)
  qed
qed

lemma targetSet_of_path:
  "property w (Hash 2) (targetSet_of w obj ev) tg = registry_path w obj [''listeners'', ev, tg]"
proof (cases "nullish obj")
  case True
  then have "ref_of obj = None" by (cases obj) auto
  with True show ?thesis
    by (simp add: targetSet_of_def targetSetFor_def meta_def registry_path_def meta_val_def)
next
  case False
  have m: "meta obj False w = (Inr (meta_val w obj), w)"
    using False by (auto simp: meta_def meta_val_def split: option.splits)
  let ?L = "property w (Hash 0) (meta_val w obj) ''listeners''"
  let ?T = "property w (Hash 1) ?L ev"
  have "targetSet_of w obj ev = (if truthy ?L \<and> truthy ?T then ?T else Bool False)"
    by (simp add: targetSet_of_def targetSetFor_def m Let_def)
  moreover have "\<not> truthy ?T \<Longrightarrow> property w (Hash 2) ?T tg = Undefined"
    by (simp add: falsy_no_ref)
  moreover have "\<not> truthy ?L \<Longrightarrow> ?T = Undefined"
    by (simp add: falsy_no_ref)
  ultimately show ?thesis by (auto simp: registry_path_unfold)
qed

lemma slot_of_live:
  "property w (Hash 3) (property w (Hash 2) (targetSet_of w obj ev) tg) mg = slot_of w obj ev tg mg"
  by (simp add: targetSet_of_path slot_of_def registry_path_unfold)

lemma mem_live_slots_of:
  "((tg, mg), a) \<in> set (live_slots_of w obj ev) \<longleftrightarrow>
     \<not> SKIP_PROPERTIES tg \<and> \<not> SKIP_PROPERTIES mg \<and> a = slot_of w obj ev tg mg \<and> truthy a"
  by (simp add: live_slots_of_def mem_live_slots slot_of_live)

lemma distinct_live_slots_of: "distinct (map fst (live_slots_of w obj ev))"
  by (simp add: live_slots_of_def distinct_live_slots)

lemma kept_walk_ro: "registry_kept w w' \<Longrightarrow> walk_ro w' d m ks = walk_ro w d m ks"
  by (rule walk_ro_cong) (simp add: kept_property[of w w'])

lemma kept_meta_val: "registry_kept w w' \<Longrightarrow> meta_val w' obj = meta_val w obj"
  by (rule meta_val_cong) (simp add: registry_kept_def)

lemma kept_registry_path: "registry_kept w w' \<Longrightarrow> registry_path w' obj path = registry_path w obj path"
  by (simp add: registry_path_def kept_walk_ro[of w w'] kept_meta_val[of w w'])

lemma kept_slot_of: "registry_kept w w' \<Longrightarrow> slot_of w' obj ev tg mg = slot_of w obj ev tg mg"
  by (simp add: slot_of_def kept_registry_path[of w w'])

lemma kept_well_formed: "registry_kept w w' \<Longrightarrow> well_formed w' = well_formed w"
  by (simp add: well_formed_def kept_property[of w w'])

lemma kept_targetSet_of: "registry_kept w w' \<Longrightarrow> targetSet_of w' obj ev = targetSet_of w obj ev"
  by (simp add: targetSet_of_def targetSetFor_kept[of w w'])

lemma kept_live_slots_of: "registry_kept w w' \<Longrightarrow> live_slots_of w' obj ev = live_slots_of w obj ev"
  by (simp add: live_slots_of_def kept_targetSet_of[of w w'] live_slots_def live_methods_def
        kept_property[of w w'] kept_keys[of w w'])

lemma ref_truthy: "ref_of v \<noteq> None \<Longrightarrow> truthy v"
  by (cases v) auto

lemma walk_ro_heap_cong:
  "(\<forall>d'. d \<le> d' \<and> d' < d + length ks \<longrightarrow> heap w' (Hash d') = heap w (Hash d')) \<Longrightarrow>
   walk_ro w' d m ks = walk_ro w d m ks"
proof (induction ks arbitrary: d m)
  case Nil
  then show ?case by simp
next
  case (Cons k ks)
  have "heap w' (Hash d) = heap w (Hash d)" using Cons.prems by simp
  then have p: "property w' (Hash d) m k = property w (Hash d) m k" by (rule property_eq_heap)
  have "walk_ro w' (Suc d) (property w (Hash d) m k) ks = walk_ro w (Suc d) (property w (Hash d) m k) ks"
    using Cons.prems by (intro Cons.IH) auto
  with p show ?case by simp
qed

lemma registry_path_cong:
  "metas w' = metas w \<Longrightarrow> (\<forall>d'<length path. heap w' (Hash d') = heap w (Hash d')) \<Longrightarrow>
   registry_path w' obj path = registry_path w obj path"
  unfolding registry_path_def
  by (simp add: meta_val_cong[of w' w] walk_ro_heap_cong[of 0 path w' w])

lemma slot_of_unfold:
  "slot_of w obj ev tg mg = property w (Hash 3) (registry_path w obj [''listeners'', ev, tg]) mg"
  by (simp add: slot_of_def registry_path_unfold)

lemma registry_path_store3 [simp]:
  "registry_path (store (Hash 3) v k x w) obj [a, b, c] = registry_path w obj [a, b, c]"
  by (rule registry_path_cong) (simp_all add: heap_store_other)

lemma registry_path_store_Action [simp]:
  "registry_path (store Action v k x w) obj path = registry_path w obj path"
  by (rule registry_path_cong) (simp_all add: heap_store_other)

lemma registry_path_alloc_Action [simp]:
  "registry_path (snd (alloc Action ps w)) obj path = registry_path w obj path"
  by (rule registry_path_cong) (simp_all add: heap_alloc_other)

lemma well_formed_store_Action [simp]: "well_formed (store Action v k x w) = well_formed w"
  by (simp add: well_formed_def property_store)

lemma well_formed_alloc_Action [simp]: "well_formed (snd (alloc Action ps w)) = well_formed w"
  by (simp add: well_formed_def property_alloc)

lemma well_formed_store_ref:
  "well_formed w \<Longrightarrow> ref_of x \<noteq> None \<Longrightarrow> well_formed (store (Hash d) v k x w)"
  by (auto simp: well_formed_def property_store)

lemma well_formed_store_falsy:
  "well_formed w \<Longrightarrow> \<not> truthy x \<Longrightarrow> well_formed (store (Hash d) v k x w)"
  by (auto simp: well_formed_def property_store)

lemma kept_hook_call:
  "registry_untouched F \<Longrightarrow> hook_call F obj name args w = (r, w') \<Longrightarrow> registry_kept w w'"
  by (auto simp: hook_call_def split: if_splits prod.splits sum.splits dest: kept_call)

lemma addListener_unfold:
  assumes obj: "ref_of obj \<noteq> None" and ev: "ev \<noteq> []" and n: "normalize t m = (t', m')"
      and mp: "metaPath obj [''listeners'', ev, G t'] True w = (Inr A, w1)" and A: "ref_of A \<noteq> None"
  shows "addListener G F obj ev t m x w =
           hook_call F obj ''didAddListener'' [Str ev, t', m'] (register_in G A t' m' x w1)"
  using assms ref_truthy[OF obj] ref_not_nullish[OF obj] ref_not_nullish[OF A]
  by (simp add: addListener_def assert_def actionSetFor_def get_prop_def register_in_def
        hook_call_def new_action_def alloc_def Let_def split: prod.splits sum.splits)

lemma property_new_action:
  "property (snd (alloc Action (new_action t' m' x) w)) Action (Obj (fresh w)) k =
     (if k = ''xform'' then x else if k = ''method'' then m' else if k = ''target'' then t'
      else Undefined)"
  by (simp add: property_alloc new_action_def lookup_update_alist)

lemma register_in_post:
  fixes G :: guid and t' m' x :: val
  assumes A: "ref_of A \<noteq> None" and p: "registry_path w1 obj [''listeners'', ev, tg] = A"
      and wf1: "well_formed w1"
  defines "w3 \<equiv> register_in G A t' m' x w1"
  defines "a \<equiv> slot_of w3 obj ev tg (G m')"
  shows "ref_of a \<noteq> None" and "property w3 Action a ''xform'' = x" and "well_formed w3"
    and "truthy (slot_of w1 obj ev tg (G m')) \<Longrightarrow> a = slot_of w1 obj ev tg (G m')"
    and "\<not> truthy (slot_of w1 obj ev tg (G m')) \<Longrightarrow>
           a = Obj (fresh w1) \<and> property w3 Action a ''target'' = t' \<and>
           property w3 Action a ''method'' = m'"
    and "heap w3 User = heap w1 User" and "registry_path w3 obj [''listeners'', ev, tg] = A"
    and "fresh w1 \<le> fresh w3" and "metas w3 = metas w1"
proof -
  let ?e = "property w1 (Hash 3) A (G m')"
  have s1: "slot_of w1 obj ev tg (G m') = ?e" using p by (simp add: slot_of_unfold)
  have path3: "registry_path w3 obj [''listeners'', ev, tg] = A"
    using p by (simp add: w3_def register_in_def)
  then have a: "a = property w3 (Hash 3) A (G m')" by (simp add: a_def slot_of_unfold)
  show "registry_path w3 obj [''listeners'', ev, tg] = A" by (rule path3)
  show "heap w3 User = heap w1 User"
    by (simp add: w3_def register_in_def heap_store_other heap_alloc_other)
  show "fresh w1 \<le> fresh w3" by (simp add: w3_def register_in_def)
  show "metas w3 = metas w1" by (simp add: w3_def register_in_def)
  show "well_formed w3"
    using wf1 by (simp add: w3_def register_in_def well_formed_store_ref)
  show "truthy (slot_of w1 obj ev tg (G m')) \<Longrightarrow> a = slot_of w1 obj ev tg (G m')"
    using A by (simp add: a s1 w3_def register_in_def property_store)
  show "\<not> truthy (slot_of w1 obj ev tg (G m')) \<Longrightarrow>
           a = Obj (fresh w1) \<and> property w3 Action a ''target'' = t' \<and>
           property w3 Action a ''method'' = m'"
    using A by (simp add: a s1 w3_def register_in_def property_store property_new_action)
  show "ref_of a \<noteq> None"
  proof (cases "truthy ?e")
    case True
    then have "a = ?e" using A by (simp add: a w3_def register_in_def property_store)
    with True wf1 show ?thesis by (simp add: well_formed_def)
  next
    case False
    then show ?thesis using A by (simp add: a w3_def register_in_def property_store)
  qed
  show "property w3 Action a ''xform'' = x"
  proof (cases "truthy ?e")
    case True
    then have e: "a = ?e" using A by (simp add: a w3_def register_in_def property_store)
    have "ref_of ?e \<noteq> None" using True wf1 by (simp add: well_formed_def)
    then show ?thesis using True e by (simp add: w3_def register_in_def property_store)
  next
    case False
    then show ?thesis using A
      by (simp add: a w3_def register_in_def property_store property_new_action)
  qed
qed

lemma falsy_walk_ro: "\<not> truthy m \<Longrightarrow> \<not> truthy (walk_ro w d m ks)"
proof (cases ks)
  case Nil
  then show "\<not> truthy m \<Longrightarrow> ?thesis" by simp
next
  case (Cons k ks')
  assume "\<not> truthy m"
  then have "ref_of m = None" by (rule falsy_no_ref)
  from walk_ro_no_ref[OF this, of ks w d] Cons show ?thesis by simp
qed

lemma walk_cases:
  assumes "metaPath_walk obj d m path True w = (v, w')" and "path \<noteq> []"
      and "\<forall>k\<in>set (tl path). \<not> SKIP_PROPERTIES k"
  shows "(truthy (walk_ro w d m path) \<and> w' = w \<and> v = walk_ro w d m path) \<or>
         (\<not> truthy (walk_ro w d m path) \<and>
          (\<exists>f. v = Obj f \<and> fresh w \<le> f \<and> f < fresh w' \<and>
               heap w' (Hash (d + length path)) f =
                 DAList.update ''__ember_source__'' obj DAList.empty))"
  using assms
proof (induction path arbitrary: d m w)
  case Nil
  then show ?case by simp
next
  case (Cons k ks)
  let ?link = "property w (Hash d) m k"
  show ?case
  proof (cases "truthy ?link")
    case True
    with Cons.prems have step: "metaPath_walk obj (Suc d) ?link ks True w = (v, w')" by simp
    show ?thesis
    proof (cases ks)
      case Nil
      with step True show ?thesis by auto
    next
      case (Cons k' ks')
      then have ne: "ks \<noteq> []" and sk: "\<forall>k\<in>set (tl ks). \<not> SKIP_PROPERTIES k"
        using Cons.prems(3) by auto
      from Cons.IH[OF step ne sk] show ?thesis by simp
    qed
  next
    case False
    let ?src = "DAList.update ''__ember_source__'' obj DAList.empty"
    let ?a = "alloc (Hash (Suc d)) ?src w"
    let ?w2 = "store (Hash d) m k (fst ?a) (snd ?a)"
    have step: "metaPath_walk obj (Suc d) (Obj (fresh w)) ks True ?w2 = (v, w')"
      using Cons.prems False by (simp add: case_prod_unfold)
    have falsy: "\<not> truthy (walk_ro w d m (k # ks))"
      using False by (simp add: falsy_walk_ro)
    have h2: "heap ?w2 (Hash (Suc d)) (fresh w) = ?src"
      by (simp add: heap_store_other alloc_def)
    show ?thesis
    proof (cases ks)
      case Nil
      with step h2 falsy show ?thesis by auto
    next
      case (Cons k' ks')
      then have ne: "ks \<noteq> []" and sk: "\<forall>k\<in>set (tl ks). \<not> SKIP_PROPERTIES k"
        and k': "\<not> SKIP_PROPERTIES k'"
        using Cons.prems(3) by auto
      have "property ?w2 (Hash (Suc d)) (Obj (fresh w)) k' = Undefined"
        using k' h2 by (simp add: property_def lookup_update_alist SKIP_PROPERTIES_def)
      then have "\<not> truthy (walk_ro ?w2 (Suc d) (Obj (fresh w)) ks)"
        using Cons by (simp add: falsy_walk_ro)
      with Cons.IH[OF step ne sk] falsy show ?thesis by auto
    qed
  qed
qed

lemma metaPath_cases:
  assumes mp: "metaPath obj path True w = (Inr v, w')" and path: "path \<noteq> []"
      and sk: "\<forall>k\<in>set (tl path). \<not> SKIP_PROPERTIES k"
  shows "(truthy (registry_path w obj path) \<and> w' = w \<and> v = registry_path w obj path) \<or>
         (\<not> truthy (registry_path w obj path) \<and>
          (\<exists>f. v = Obj f \<and> fresh w \<le> f \<and> f < fresh w' \<and>
               heap w' (Hash (length path)) f =
                 DAList.update ''__ember_source__'' obj DAList.empty))"
proof (cases "truthy (registry_path w obj path)")
  case True
  from metaPath_existing[OF True path, of True] mp True show ?thesis by simp
next
  case False
  obtain m w1 where m: "meta obj True w = (Inr m, w1)"
      and s: "metaPath_walk obj 0 m path True w1 = (v, w')"
    using mp path by (auto simp: metaPath_def split: prod.splits sum.splits)
  note mw = meta_write_any[OF m]
  have nt: "\<not> truthy (walk_ro w1 0 m path)"
  proof (cases "w1 = w")
    case True
    with mw False show ?thesis by (simp add: registry_path_def)
  next
    case False
    obtain n where n: "ref_of obj = Some n" "metas w n = None"
        and w1: "w1 = w\<lparr>heap := (heap w)(Hash 0 := (heap w (Hash 0))(fresh w := DAList.empty)),
                 metas := (metas w)(n \<mapsto> fresh w), fresh := Suc (fresh w)\<rparr>"
        and mm: "m = Obj (fresh w)"
      using m False by (auto simp: meta_def split: option.splits if_splits)
    obtain k ks where pk: "path = k # ks" using path by (cases path) auto
    have "property w1 (Hash 0) m k = Undefined" by (simp add: w1 mm property_def)
    then show ?thesis by (simp add: pk falsy_walk_ro)
  qed
  from walk_cases[OF s path sk] nt mw False show ?thesis by auto
qed

lemma addListener_post:
  fixes G :: guid and t m x :: val
  assumes wf: "well_formed w" and F: "registry_untouched F" and obj: "ref_of obj \<noteq> None"
      and ev: "ev \<noteq> []" and n: "normalize t m = (t', m')"
  defines "w' \<equiv> snd (addListener G F obj ev t m x w)"
  defines "a \<equiv> slot_of w' obj ev (G t') (G m')"
  shows "ref_of a \<noteq> None" and "property w' Action a ''xform'' = x" and "well_formed w'"
    and "truthy (slot_of w obj ev (G t') (G m')) \<Longrightarrow> a = slot_of w obj ev (G t') (G m')"
    and "\<not> truthy (slot_of w obj ev (G t') (G m')) \<Longrightarrow> \<not> SKIP_PROPERTIES ev \<Longrightarrow>
           \<not> SKIP_PROPERTIES (G t') \<Longrightarrow> \<not> SKIP_PROPERTIES (G m') \<Longrightarrow>
           property w' Action a ''target'' = t' \<and> property w' Action a ''method'' = m' \<and>
           (\<exists>n. a = Obj n \<and> fresh w \<le> n)"
proof -
  obtain A w1 where mp: "metaPath obj [''listeners'', ev, G t'] True w = (Inr A, w1)"
      and p: "registry_path w1 obj [''listeners'', ev, G t'] = A" and A: "ref_of A \<noteq> None"
      and wf1: "well_formed w1" and fr: "fresh w \<le> fresh w1"
    using metaPath_pos[OF wf obj, of "[''listeners'', ev, G t']"] by auto
  let ?w3 = "register_in G A t' m' x w1"
  note post = register_in_post[where G=G and m'=m' and t'=t' and x=x, OF A p wf1]
  obtain r where h: "hook_call F obj ''didAddListener'' [Str ev, t', m'] ?w3 = (r, w')"
    using addListener_unfold[where G=G and F=F and x=x, OF obj ev n mp A]
    by (cases "hook_call F obj ''didAddListener'' [Str ev, t', m'] ?w3") (simp add: w'_def)
  have k: "registry_kept ?w3 w'" using kept_hook_call[OF F h] .
  have a: "a = slot_of ?w3 obj ev (G t') (G m')" by (simp add: a_def kept_slot_of[OF k])
  have pa: "\<And>k'. property w' Action a k' = property ?w3 Action a k'"
    using k by (simp add: kept_property)
  show "ref_of a \<noteq> None" using post(1) a by simp
  show "property w' Action a ''xform'' = x" using post(2) a pa by simp
  show "well_formed w'" using post(3) kept_well_formed[OF k] by simp
  have same: "truthy (slot_of w obj ev (G t') (G m')) \<Longrightarrow> w1 = w"
  proof -
    assume t: "truthy (slot_of w obj ev (G t') (G m'))"
    have "truthy (registry_path w obj [''listeners'', ev, G t'])"
    proof (rule ccontr)
      assume "\<not> truthy (registry_path w obj [''listeners'', ev, G t'])"
      then have "ref_of (registry_path w obj [''listeners'', ev, G t']) = None" by (rule falsy_no_ref)
      with t show False by (simp add: slot_of_unfold)
    qed
    from metaPath_existing[OF this, of True] mp show "w1 = w" by simp
  qed
  show "truthy (slot_of w obj ev (G t') (G m')) \<Longrightarrow> a = slot_of w obj ev (G t') (G m')"
    using post(4) a same by auto
  show "\<not> truthy (slot_of w obj ev (G t') (G m')) \<Longrightarrow> \<not> SKIP_PROPERTIES ev \<Longrightarrow>
           \<not> SKIP_PROPERTIES (G t') \<Longrightarrow> \<not> SKIP_PROPERTIES (G m') \<Longrightarrow>
           property w' Action a ''target'' = t' \<and> property w' Action a ''method'' = m' \<and>
           (\<exists>n. a = Obj n \<and> fresh w \<le> n)"
  proof -
    assume nt: "\<not> truthy (slot_of w obj ev (G t') (G m'))"
      and sk: "\<not> SKIP_PROPERTIES ev" "\<not> SKIP_PROPERTIES (G t')" "\<not> SKIP_PROPERTIES (G m')"
    have "\<not> truthy (slot_of w1 obj ev (G t') (G m'))"
    proof -
      from metaPath_cases[OF mp] sk
      consider "w1 = w" | f where "A = Obj f"
          "heap w1 (Hash 3) f = DAList.update ''__ember_source__'' obj DAList.empty"
        by (auto simp: numeral_3_eq_3)
      then show ?thesis
      proof cases
        case 1
        with nt show ?thesis by simp
      next
        case 2
        then have "property w1 (Hash 3) A (G m') = Undefined"
          using sk(3) by (simp add: property_def lookup_update_alist SKIP_PROPERTIES_def)
        with p show ?thesis by (simp add: slot_of_unfold)
      qed
    qed
    from post(5)[OF this] a pa fr show ?thesis by auto
  qed
qed

lemma iterate_methods_append:
  "iterate_methods cb actionSet (ks1 @ ks2) params acc w =
     (case iterate_methods cb actionSet ks1 params acc w of
        (Inl e, acc1, w1) \<Rightarrow> (Inl e, acc1, w1)
      | (Inr True, acc1, w1) \<Rightarrow> (Inr True, acc1, w1)
      | (Inr False, acc1, w1) \<Rightarrow> iterate_methods cb actionSet ks2 params acc1 w1)"
  by (induction ks1 arbitrary: acc w) (auto simp: Let_def split: prod.splits sum.splits bool.splits)

lemma iterate_targets_append:
  "iterate_targets cb targetSet (ks1 @ ks2) params acc w =
     (case iterate_targets cb targetSet ks1 params acc w of
        (Inl e, acc1, w1) \<Rightarrow> (Inl e, acc1, w1)
      | (Inr True, acc1, w1) \<Rightarrow> (Inr True, acc1, w1)
      | (Inr False, acc1, w1) \<Rightarrow> iterate_targets cb targetSet ks2 params acc1 w1)"
  by (induction ks1 arbitrary: acc w) (auto simp: Let_def split: prod.splits sum.splits bool.splits)

lemma keys_truthy: "keys w r v \<noteq> [] \<Longrightarrow> truthy v"
  by (cases v) (simp_all add: keys_def)


lemma slot_of_store3:
  "slot_of (store (Hash 3) A mg x w) obj ev tg mg' =
     (if ref_of A \<noteq> None \<and> ref_of (registry_path w obj [''listeners'', ev, tg]) = ref_of A \<and> mg' = mg
      then x else slot_of w obj ev tg mg')"
  by (auto simp: slot_of_unfold property_store)

lemma removeListener_cases:
  assumes n: "normalize t m = (t', m')" and rm: "removeListener G F obj ev t m w = (r, w')"
  obtains (no_meta) e where "metaPath obj [''listeners'', ev, G t'] True w = (Inl e, w')" "r = Inl e"
  | (found) A w1 w2 where "metaPath obj [''listeners'', ev, G t'] True w = (Inr A, w1)"
      "w2 = (if truthy A \<and> truthy (property w1 (Hash 3) A (G m'))
             then store (Hash 3) A (G m') Null w1 else w1)"
      "(if truthy obj then hook_call F obj ''didRemoveListener'' [Str ev, t', m'] w2
        else (Inr Undefined, w2)) = (r, w')"
proof (cases "metaPath obj [''listeners'', ev, G t'] True w")
  case (Pair r1 w1)
  show ?thesis
  proof (cases r1)
    case (Inl e)
    with Pair rm n have "w' = w1" "r = Inl e"
      by (simp_all add: removeListener_def actionSetFor_def)
    with Pair Inl no_meta show ?thesis by simp
  next
    case (Inr A)
    let ?w2 = "(if truthy A \<and> truthy (property w1 (Hash 3) A (G m'))
             then store (Hash 3) A (G m') Null w1 else w1)"
    have "(if truthy obj then hook_call F obj ''didRemoveListener'' [Str ev, t', m'] ?w2
        else (Inr Undefined, ?w2)) = (r, w')"
      using rm n Pair Inr
      by (auto simp: removeListener_def actionSetFor_def hook_call_def split: prod.splits sum.splits if_splits)
    with Pair Inr found show ?thesis by blast
  qed
qed

lemma removeListener_slot:
  assumes F: "registry_untouched F" and n: "normalize t m = (t', m')"
      and rm: "removeListener G F obj ev t m w = (r, w')"
  shows "\<not> truthy (slot_of w' obj ev (G t') (G m'))"
  using n rm
proof (cases rule: removeListener_cases)
  case (no_meta e)
  from metaPath_neg[OF no_meta(1)] have "\<not> truthy (registry_path w' obj [''listeners'', ev, G t'])"
    by simp
  then have "ref_of (registry_path w' obj [''listeners'', ev, G t']) = None" by (rule falsy_no_ref)
  then show ?thesis by (simp add: slot_of_unfold)
next
  case (found A w1 w2)
  have k: "registry_kept w2 w'"
    using found(3) kept_hook_call[OF F] by (auto split: if_splits)
  have p2: "registry_path w2 obj [''listeners'', ev, G t'] = registry_path w1 obj [''listeners'', ev, G t']"
    by (simp add: found(2))
  have "\<not> truthy (slot_of w2 obj ev (G t') (G m'))"
  proof (cases "registry_path w1 obj [''listeners'', ev, G t'] = A")
    case True
    show ?thesis
    proof (cases "truthy A \<and> truthy (property w1 (Hash 3) A (G m'))")
      case True
      then have "ref_of A \<noteq> None" by (cases "ref_of A") auto
      with True \<open>registry_path w1 obj [''listeners'', ev, G t'] = A\<close> show ?thesis
        by (simp add: found(2) slot_of_store3)
    next
      case False
      then have "\<not> truthy (property w1 (Hash 3) A (G m'))"
        by (auto dest: falsy_no_ref)
      with False True show ?thesis by (simp add: found(2) slot_of_unfold)
    qed
  next
    case False
    with metaPath_neg[OF found(1)] have "\<not> truthy (registry_path w1 obj [''listeners'', ev, G t'])"
      by simp
    then have "ref_of (registry_path w2 obj [''listeners'', ev, G t']) = None"
      unfolding p2 by (rule falsy_no_ref)
    then show ?thesis by (simp add: slot_of_unfold)
  qed
  then show ?thesis by (simp add: kept_slot_of[OF k])
qed

lemma removeListener_result:
  assumes obj: "ref_of obj \<noteq> None" and n: "normalize t m = (t', m')"
      and h: "\<not> is_function (property w User obj ''didRemoveListener'')"
  shows "fst (removeListener G F obj ev t m w) = Inr Undefined"
proof -
  obtain r w' where rm: "removeListener G F obj ev t m w = (r, w')"
    by (cases "removeListener G F obj ev t m w")
  from n rm have "r = Inr Undefined"
  proof (cases rule: removeListener_cases)
    case (no_meta e)
    obtain w1 where "meta obj True w = (Inr (meta_val w1 obj), w1)" using meta_write[OF obj] by blast
    with no_meta(1) show ?thesis by (simp add: metaPath_def split: prod.splits)
  next
    case (found A w1 w2)
    have "heap w1 User = heap w User" using metaPath_neg[OF found(1)] by simp
    then have "heap w2 User = heap w User" by (simp add: found(2) heap_store_other)
    then have "property w2 User obj ''didRemoveListener'' = property w User obj ''didRemoveListener''"
      by (rule property_eq_heap)
    with found(3) h show ?thesis by (auto simp: hook_call_def split: if_splits)
  qed
  with rm show ?thesis by simp
qed

lemma filter_distinct_key:
  "distinct (map fst xs) \<Longrightarrow> (k, v) \<in> set xs \<Longrightarrow> filter (\<lambda>(k', v'). k' = k) xs = [(k, v)]"
proof (induction xs)
  case Nil
  then show ?case by simp
next
  case (Cons x xs)
  show ?case
  proof (cases "fst x = k")
    case True
    with Cons.prems have "x = (k, v)" by (cases x) (auto simp: image_iff)
    moreover have "filter (\<lambda>(k', v'). k' = k) xs = []"
      using Cons.prems True by (auto simp: filter_empty_conv image_iff)
    ultimately show ?thesis by simp
  next
    case False
    with Cons show ?thesis by (cases x) auto
  qed
qed

lemma deferEvent_eq:
  assumes "\<not> nullish obj"
  shows "deferEvent obj ev args w =
     (Inr \<lparr>d_actions = live_actions w obj ev, d_params = Arguments (fresh w)\<rparr>,
      snd (new_arguments (obj # Str ev # args) w))"
proof -
  let ?w0 = "snd (new_arguments (obj # Str ev # args) w)"
  obtain ts where t: "targetSetFor obj ev w = (Inr ts, w)"
    using targetSetFor_not_nullish[OF assms] by blast
  have t0: "targetSetFor obj ev ?w0 = (Inr ts, ?w0)" using t by (rule targetSetFor_new_arguments)
  have ls: "live_slots ?w0 ts = live_slots w ts"
    by (simp add: live_slots_def live_methods_def kept_property[of w ?w0] kept_keys[of w ?w0])
  have "live_actions w obj ev = map snd (live_slots w ts)"
    using t by (simp add: live_actions_def live_slots_of_def targetSet_of_def)
  then show ?thesis
    unfolding deferEvent_def case_new_arguments
    by (simp add: t0 iterateSet_push ls)
qed

lemma truthy_slot_path:
  assumes "truthy (slot_of w obj ev tg mg)"
  shows "truthy (registry_path w obj [''listeners'', ev, tg])"
    and "ref_of (registry_path w obj [''listeners'', ev, tg]) \<noteq> None"
proof -
  show r: "ref_of (registry_path w obj [''listeners'', ev, tg]) \<noteq> None"
  proof
    assume "ref_of (registry_path w obj [''listeners'', ev, tg]) = None"
    with assms show False by (simp add: slot_of_unfold)
  qed
  then show "truthy (registry_path w obj [''listeners'', ev, tg])" by (rule ref_truthy)
qed



lemma iterate_methods_none:
  "filter (\<lambda>mg. \<not> SKIP_PROPERTIES mg \<and> truthy (property w (Hash 3) actionSet mg)) mgs = [] \<Longrightarrow>
   iterate_methods cb actionSet mgs params acc w = (Inr False, acc, w)"
  by (induction mgs) (auto simp: Let_def split: if_splits)

lemma iterate_targets_none:
  "live_of_targets w targetSet tgs = [] \<Longrightarrow>
   iterate_targets cb targetSet tgs params acc w = (Inr False, acc, w)"
proof (induction tgs)
  case Nil
  then show ?case by simp
next
  case (Cons tg tgs)
  then show ?case
    by (auto simp: live_of_targets_Cons Let_def map_snd_live_methods iterate_methods_none
        split: if_splits)
qed

lemma iterateSet_none:
  assumes "live_slots w targetSet = []"
  shows "iterateSet targetSet cb params acc w = (Inr False, acc, w)"
proof -
  have "live_of_targets w targetSet (keys w (Hash 2) targetSet) = []"
    using assms map_snd_live_slots[of w targetSet] by simp
  then show ?thesis by (simp add: iterateSet_def iterate_targets_none)
qed

lemma registry_path_1:
  "registry_path w obj [a] = property w (Hash 0) (meta_val w obj) a"
  by (simp add: registry_path_def)

lemma walk_truthy:
  "metaPath_walk obj d m path True w = (v, w') \<Longrightarrow> path \<noteq> [] \<Longrightarrow> truthy v"
proof (induction path arbitrary: d m w)
  case Nil
  then show ?case by simp
next
  case (Cons k ks)
  show ?case
  proof (cases ks)
    case Nil
    with Cons.prems show ?thesis by (auto simp: Let_def alloc_def split: if_splits)
  next
    case (Cons k' ks')
    then have ne: "ks \<noteq> []" by simp
    from Cons.prems(1) Cons.IH[OF _ ne] show ?thesis
      by (auto simp: Let_def split: if_splits prod.splits)
  qed
qed

lemma metaPath_truthy:
  assumes obj: "ref_of obj \<noteq> None" and path: "path \<noteq> []"
  shows "\<exists>v w'. metaPath obj path True w = (Inr v, w') \<and> truthy v"
proof -
  obtain w1 where m: "meta obj True w = (Inr (meta_val w1 obj), w1)"
    using meta_write[OF obj, of w] by blast
  obtain v w' where s: "metaPath_walk obj 0 (meta_val w1 obj) path True w1 = (v, w')"
    by (cases "metaPath_walk obj 0 (meta_val w1 obj) path True w1")
  have "truthy v" using walk_truthy[OF s path] .
  then show ?thesis using m s path by (simp add: metaPath_def)
qed

lemma live_slots_of_empty_iff:
  "live_slots_of w obj ev = [] \<longleftrightarrow>
     (\<forall>tg mg. \<not> SKIP_PROPERTIES tg \<and> \<not> SKIP_PROPERTIES mg \<longrightarrow> \<not> truthy (slot_of w obj ev tg mg))"
proof
  assume "live_slots_of w obj ev = []"
  then have "\<And>tg mg a. ((tg, mg), a) \<notin> set (live_slots_of w obj ev)" by simp
  then show "\<forall>tg mg. \<not> SKIP_PROPERTIES tg \<and> \<not> SKIP_PROPERTIES mg \<longrightarrow> \<not> truthy (slot_of w obj ev tg mg)"
    by (auto simp: mem_live_slots_of)
next
  assume none: "\<forall>tg mg. \<not> SKIP_PROPERTIES tg \<and> \<not> SKIP_PROPERTIES mg \<longrightarrow> \<not> truthy (slot_of w obj ev tg mg)"
  show "live_slots_of w obj ev = []"
  proof (cases "live_slots_of w obj ev")
    case Nil
    then show ?thesis .
  next
    case (Cons x xs)
    obtain tg mg a where x: "x = ((tg, mg), a)" by (cases x) auto
    have "((tg, mg), a) \<in> set (live_slots_of w obj ev)" using Cons x by simp
    with none show ?thesis by (auto simp: mem_live_slots_of)
  qed
qed

lemma hasListeners_eq:
  assumes obj: "ref_of obj \<noteq> None"
  shows "hasListeners obj ev w =
     (if live_slots_of w obj ev \<noteq> [] then (Inr (Bool True), w)
      else (Inr (Bool False), cleanup obj ev w))"
proof -
  have nn: "\<not> nullish obj" using obj by (rule ref_not_nullish)
  obtain ts where t: "targetSetFor obj ev w = (Inr ts, w)"
    using targetSetFor_not_nullish[OF nn] by blast
  have l: "live_slots_of w obj ev = live_slots w ts"
    using t by (simp add: live_slots_of_def targetSet_of_def)
  obtain L w3 where mp: "metaPath obj [''listeners''] True w = (Inr L, w3)" and tL: "truthy L"
    using metaPath_truthy[OF obj, of "[''listeners'']" w] by auto
  have nL: "\<not> nullish L" using tL by (cases L) auto
  show ?thesis
    by (simp add: hasListeners_def t iterateSet_true l mp set_prop_def nL cleanup_def)
qed

lemma cleanup_existing:
  assumes "ref_of (registry_path w obj [''listeners'']) \<noteq> None"
  shows "cleanup obj ev w = store (Hash 1) (registry_path w obj [''listeners'']) ev Null w"
  using metaPath_existing[OF ref_truthy[OF assms], of True] by (simp add: cleanup_def)

lemma registry_path_store_deeper [simp]:
  "length path \<le> d \<Longrightarrow> registry_path (store (Hash d) v k x w) obj path = registry_path w obj path"
  by (rule registry_path_cong) (simp_all add: heap_store_other)

lemma cleanup_post:
  assumes wf: "well_formed w" and obj: "ref_of obj \<noteq> None"
  shows "ref_of (registry_path (cleanup obj ev w) obj [''listeners'']) \<noteq> None"
    and "\<not> truthy (registry_path (cleanup obj ev w) obj [''listeners'', ev])"
proof -
  obtain L w3 where mp: "metaPath obj [''listeners''] True w = (Inr L, w3)"
      and p: "registry_path w3 obj [''listeners''] = L" and r: "ref_of L \<noteq> None"
    using metaPath_pos[OF wf obj, of "[''listeners'']"] by auto
  have c: "cleanup obj ev w = store (Hash 1) L ev Null w3" using mp by (simp add: cleanup_def)
  show "ref_of (registry_path (cleanup obj ev w) obj [''listeners'']) \<noteq> None"
    using p r by (simp add: c)
  have "registry_path (cleanup obj ev w) obj [''listeners'', ev] = Null"
    using p r by (simp add: c registry_path_unfold property_store registry_path_1[symmetric])
  then show "\<not> truthy (registry_path (cleanup obj ev w) obj [''listeners'', ev])" by simp
qed

lemma cleanup_post_existing:
  assumes "ref_of (registry_path w obj [''listeners'']) \<noteq> None"
  shows "ref_of (registry_path (cleanup obj ev w) obj [''listeners'']) \<noteq> None"
    and "\<not> truthy (registry_path (cleanup obj ev w) obj [''listeners'', ev])"
proof -
  show "ref_of (registry_path (cleanup obj ev w) obj [''listeners'']) \<noteq> None"
    using assms by (simp add: cleanup_existing[OF assms])
  have "registry_path (cleanup obj ev w) obj [''listeners'', ev] = Null"
    using assms
    by (simp add: cleanup_existing[OF assms] registry_path_unfold property_store registry_path_1[symmetric])
  then show "\<not> truthy (registry_path (cleanup obj ev w) obj [''listeners'', ev])" by simp
qed

lemma meta_val_store [simp]: "meta_val (store r v k x w) obj = meta_val w obj"
  by (rule meta_val_cong) simp

lemma meta_val_alloc [simp]: "meta_val (snd (alloc r ps w)) obj = meta_val w obj"
  by (rule meta_val_cong) simp

lemma singleton_list:
  assumes "distinct (map fst xs)" and "\<And>x. x \<in> set xs \<longleftrightarrow> x = y"
  shows "xs = [y]"
proof (cases xs)
  case Nil
  with assms(2)[of y] show ?thesis by simp
next
  case (Cons a as)
  have a: "a = y" using assms(2)[of a] Cons by simp
  have "as = []"
  proof (cases as)
    case Nil
    then show ?thesis .
  next
    case (Cons b bs)
    have "b = y" using assms(2)[of b] \<open>xs = a # as\<close> Cons by simp
    with a assms(1) \<open>xs = a # as\<close> Cons show ?thesis by simp
  qed
  with a Cons show ?thesis by simp
qed

lemma lookup_source:
  "DAList.lookup (DAList.update ''__ember_source__'' obj DAList.empty) k =
     (if SKIP_PROPERTIES k then Some obj else None)"
  by (simp add: lookup_update_alist SKIP_PROPERTIES_def)

lemma addListener_fresh_event:
  fixes G :: guid and t m x :: val
  assumes F: "registry_untouched F" and obj: "ref_of obj \<noteq> None" and ev: "ev \<noteq> []"
      and n: "normalize t m = (t', m')"
      and sk: "\<not> SKIP_PROPERTIES (G t')" "\<not> SKIP_PROPERTIES (G m')"
      and L: "ref_of (registry_path w obj [''listeners'']) \<noteq> None"
      and T: "\<not> truthy (registry_path w obj [''listeners'', ev])"
  defines "w' \<equiv> snd (addListener G F obj ev t m x w)"
  shows "\<exists>a. live_slots_of w' obj ev = [((G t', G m'), a)] \<and> ref_of a \<noteq> None \<and>
             property w' Action a ''target'' = t' \<and> property w' Action a ''method'' = m' \<and>
             property w' Action a ''xform'' = x"
    and "registry_path w' obj [''listeners''] = registry_path w obj [''listeners'']"
proof -
  define f where "f = fresh w"
  define src where "src = DAList.update ''__ember_source__'' obj DAList.empty"
  define Lv where "Lv = registry_path w obj [''listeners'']"
  define wa where "wa = store (Hash 1) Lv ev (Obj f) (snd (alloc (Hash 2) src w))"
  define wb where "wb = store (Hash 2) (Obj f) (G t') (Obj (Suc f)) (snd (alloc (Hash 3) src wa))"
  define wc where "wc = store (Hash 3) (Obj (Suc f)) (G m') (Obj (Suc (Suc f)))
                          (snd (alloc Action (new_action t' m' x) wb))"
  have Lp: "property w (Hash 0) (meta_val w obj) ''listeners'' = Lv"
    by (simp add: Lv_def registry_path_1)
  have Lr: "ref_of Lv \<noteq> None" and Lt: "truthy Lv" using L ref_truthy[OF L] by (simp_all add: Lv_def)
  have M: "ref_of (meta_val w obj) \<noteq> None"
  proof
    assume "ref_of (meta_val w obj) = None"
    with Lp Lr show False by simp
  qed
  have Tp: "\<not> truthy (property w (Hash 1) Lv ev)"
    using T by (simp add: registry_path_unfold Lp)
  have fa: "fresh wa = Suc f" by (simp add: wa_def f_def)
  have fb: "fresh wb = Suc (Suc f)" by (simp add: wb_def fa)
  have pa: "property wa (Hash 2) (Obj f) (G t') = Undefined"
    using sk(1) by (simp add: wa_def property_store property_alloc f_def src_def lookup_source)
  have walk: "metaPath_walk obj 0 (meta_val w obj) [''listeners'', ev, G t'] True w = (Obj (Suc f), wb)"
    using Lt Tp sk(1)
    by (simp add: Lp Let_def case_prod_unfold wb_def wa_def f_def src_def
          property_store property_alloc lookup_source numeral_2_eq_2 numeral_3_eq_3)
  have Mx: "meta obj True w = (Inr (meta_val w obj), w)" using M by (rule meta_existing)
  have mp: "metaPath obj [''listeners'', ev, G t'] True w = (Inr (Obj (Suc f)), wb)"
    by (simp add: metaPath_def Mx walk del: metaPath_walk.simps)
  have pb: "property wb (Hash 3) (Obj (Suc f)) (G m') = Undefined"
    using sk(2) by (simp add: wb_def property_store property_alloc fa lookup_source src_def)
  have reg: "register_in G (Obj (Suc f)) t' m' x wb = wc"
    by (simp add: register_in_def pb wc_def fb)
  obtain r where h: "hook_call F obj ''didAddListener'' [Str ev, t', m'] wc = (r, w')"
    using addListener_unfold[where G=G and F=F and x=x, OF obj ev n mp] reg
    by (cases "hook_call F obj ''didAddListener'' [Str ev, t', m'] wc") (simp add: w'_def)
  have k: "registry_kept wc w'" using kept_hook_call[OF F h] .
  have mc: "meta_val wc obj = meta_val w obj" by (simp add: wc_def wb_def wa_def)
  have p0: "property wc (Hash 0) (meta_val w obj) ''listeners'' = Lv"
    by (simp add: wc_def wb_def wa_def property_store property_alloc Lp)
  have p1: "property wc (Hash 1) Lv ev = Obj f"
    using Lr by (simp add: wc_def wb_def wa_def property_store property_alloc)
  have p2: "\<And>tg. property wc (Hash 2) (Obj f) tg =
              (if tg = G t' then Obj (Suc f) else if SKIP_PROPERTIES tg then obj else Undefined)"
    by (simp add: wc_def wb_def wa_def property_store property_alloc fa f_def src_def lookup_source)
  have p3: "\<And>mg. property wc (Hash 3) (Obj (Suc f)) mg =
              (if mg = G m' then Obj (Suc (Suc f)) else if SKIP_PROPERTIES mg then obj else Undefined)"
    by (simp add: wc_def wb_def property_store property_alloc fa fb src_def lookup_source)
  have p4: "\<And>k'. property wc Action (Obj (Suc (Suc f))) k' =
              (if k' = ''xform'' then x else if k' = ''method'' then m' else if k' = ''target'' then t'
               else Undefined)"
    using property_new_action[of t' m' x wb] by (simp add: wc_def property_store fb)
  have slot: "\<And>tg mg. \<not> SKIP_PROPERTIES tg \<Longrightarrow> \<not> SKIP_PROPERTIES mg \<Longrightarrow>
      slot_of wc obj ev tg mg = (if tg = G t' \<and> mg = G m' then Obj (Suc (Suc f)) else Undefined)"
    by (simp add: slot_of_def registry_path_unfold mc p0 p1[unfolded One_nat_def] p2 p3)
  have mem: "\<And>y. y \<in> set (live_slots_of wc obj ev) \<longleftrightarrow> y = ((G t', G m'), Obj (Suc (Suc f)))"
  proof -
    fix y :: "(string \<times> string) \<times> val"
    obtain tg mg a where y: "y = ((tg, mg), a)" by (cases y) auto
    show "y \<in> set (live_slots_of wc obj ev) \<longleftrightarrow> y = ((G t', G m'), Obj (Suc (Suc f)))"
      unfolding y mem_live_slots_of using sk by (auto simp: slot split: if_splits)
  qed
  have "live_slots_of wc obj ev = [((G t', G m'), Obj (Suc (Suc f)))]"
    using singleton_list[OF distinct_live_slots_of mem] .
  then have 1: "live_slots_of w' obj ev = [((G t', G m'), Obj (Suc (Suc f)))]"
    by (simp add: kept_live_slots_of[OF k])
  have 2: "\<And>k'. property w' Action (Obj (Suc (Suc f))) k' = property wc Action (Obj (Suc (Suc f))) k'"
    using k by (simp add: kept_property)
  show "\<exists>a. live_slots_of w' obj ev = [((G t', G m'), a)] \<and> ref_of a \<noteq> None \<and>
             property w' Action a ''target'' = t' \<and> property w' Action a ''method'' = m' \<and>
             property w' Action a ''xform'' = x"
    using 1 2 p4 by (intro exI[of _ "Obj (Suc (Suc f))"]) simp
  have "registry_path wc obj [''listeners''] = Lv" by (simp add: registry_path_1 mc p0)
  then show "registry_path w' obj [''listeners''] = registry_path w obj [''listeners'']"
    by (simp add: kept_registry_path[OF k] Lv_def)
qed

lemma removeListener_only:
  fixes G :: guid and t m :: val
  assumes F: "registry_untouched F" and n: "normalize t m = (t', m')"
      and one: "live_slots_of w obj ev = [((G t', G m'), a)]"
  defines "w' \<equiv> snd (removeListener G F obj ev t m w)"
  shows "live_slots_of w' obj ev = []"
    and "registry_path w' obj [''listeners''] = registry_path w obj [''listeners'']"
proof -
  have "((G t', G m'), a) \<in> set (live_slots_of w obj ev)" using one by simp
  then have sk: "\<not> SKIP_PROPERTIES (G t')" "\<not> SKIP_PROPERTIES (G m')"
      and a: "slot_of w obj ev (G t') (G m') = a" and ta: "truthy a"
    by (auto simp: mem_live_slots_of)
  let ?A = "registry_path w obj [''listeners'', ev, G t']"
  have t: "truthy (slot_of w obj ev (G t') (G m'))" using a ta by simp
  have A: "ref_of ?A \<noteq> None" and tA: "truthy ?A" using truthy_slot_path[OF t] by simp_all
  have mp: "metaPath obj [''listeners'', ev, G t'] True w = (Inr ?A, w)"
    using metaPath_existing[OF tA] by simp
  have e: "property w (Hash 3) ?A (G m') = a" using a by (simp add: slot_of_unfold)
  obtain r where rm: "removeListener G F obj ev t m w = (r, w')"
    by (cases "removeListener G F obj ev t m w") (simp add: w'_def)
  let ?w2 = "store (Hash 3) ?A (G m') Null w"
  from n rm have k: "registry_kept ?w2 w'"
  proof (cases rule: removeListener_cases)
    case (no_meta e)
    with mp show ?thesis by simp
  next
    case (found A' w1 w2)
    from found(1) mp have eq: "A' = ?A" "w1 = w" by auto
    have "w2 = ?w2" unfolding found(2) eq using e ta tA by simp
    with found(3) kept_hook_call[OF F] show ?thesis by (auto split: if_splits)
  qed
  have none: "\<not> truthy (slot_of ?w2 obj ev tg mg)"
    if "\<not> SKIP_PROPERTIES tg" "\<not> SKIP_PROPERTIES mg" for tg mg
  proof
    assume tr: "truthy (slot_of ?w2 obj ev tg mg)"
    then have old: "slot_of ?w2 obj ev tg mg = slot_of w obj ev tg mg"
      by (auto simp: slot_of_store3 split: if_splits)
    then have "((tg, mg), slot_of w obj ev tg mg) \<in> set (live_slots_of w obj ev)"
      using that tr by (simp add: mem_live_slots_of)
    then have "tg = G t'" "mg = G m'" using one by simp_all
    with tr A show False by (simp add: slot_of_store3)
  qed
  have "live_slots_of ?w2 obj ev = []"
    using none by (simp add: live_slots_of_empty_iff)
  then show "live_slots_of w' obj ev = []" by (simp add: kept_live_slots_of[OF k])
  show "registry_path w' obj [''listeners''] = registry_path w obj [''listeners'']"
    by (simp add: kept_registry_path[OF k])
qed

lemma well_formed_init: "well_formed w_init"
  by (simp add: well_formed_def property_def w_init_def split: option.splits)

lemma not_skip_G0 [simp]:
  "\<not> SKIP_PROPERTIES (CHR ''o'' # xs)" "\<not> SKIP_PROPERTIES (CHR ''f'' # xs)"
  by (simp_all add: SKIP_PROPERTIES_def)

lemma normalize_pair [simp]: "normalize (Obj n) (Func f) = (Obj n, Func f)"
  by (simp add: normalize_def)

lemma object_sendEvent_no_hook:
  "\<not> nullish obj \<Longrightarrow> \<not> is_function (property w User obj ''sendEvent'') \<Longrightarrow>
   object_sendEvent F obj args1 w = (Inr (), w)"
  by (simp add: object_sendEvent_def get_prop_def)

lemma triple_eqI: "fst x = a \<Longrightarrow> snd (snd x) = c \<Longrightarrow> x = (a, (), c)"
  by (cases x) auto

lemma registry_untouched_F1: "registry_untouched F1"
  by (auto simp: registry_untouched_def registry_kept_def F1_def record_call_def set_index_def
        heap_store_other metas_store fresh_store split: val.splits)

subsection \<open>\<open>suspendListener\<close> around a callback that leaves the registry alone\<close>

lemma update_alist_back:
  assumes "DAList.lookup al k = Some x"
  shows "DAList.update k x (DAList.update k y al) = al"
proof -
  have "AList.update k x (AList.update k y (DAList.impl_of al)) = DAList.impl_of al"
    using assms by (simp add: lookup.rep_eq update_triv)
  then show ?thesis
    by (simp add: impl_of_inject[symmetric] update.rep_eq)
qed

lemma update_alist_same:
  assumes "DAList.lookup al k = Some x"
  shows "DAList.update k x al = al"
proof -
  have "AList.update k x (DAList.impl_of al) = DAList.impl_of al"
    using assms by (simp add: lookup.rep_eq update_triv)
  then show ?thesis
    by (simp add: impl_of_inject[symmetric] update.rep_eq)
qed

text \<open>
  When the functions of the application leave the registry alone, \<open>suspendListener\<close>
  on a live action runs the callback on its target in the store where the slot of the
  action is \<^verbatim>\<open>null\<close>, gives back the callback's outcome (its value, or what it threw), and
  leaves a registry equal to the one before: the same actions are live afterwards.
\<close>

lemma suspendListener_restores:
  fixes G :: guid
  assumes F: "registry_untouched F" and n: "normalize target method = (t', m')"
      and live: "truthy (slot_of w obj ev (G t') (G m'))"
  shows "\<exists>r w3 w4.
           slot_of (store (Hash 3) (registry_path w obj [''listeners'', ev, G t']) (G m') Null w)
              obj ev (G t') (G m') = Null \<and>
           call F callback t' [] (store (Hash 3) (registry_path w obj [''listeners'', ev, G t']) (G m') Null w)
             = (r, w3) \<and>
           suspendListener G F obj ev target method callback w = (r, w4) \<and>
           registry_kept w w4 \<and> live_slots_of w4 obj ev = live_slots_of w obj ev"
proof -
  let ?A = "registry_path w obj [''listeners'', ev, G t']"
  let ?a = "slot_of w obj ev (G t') (G m')"
  let ?w1 = "store (Hash 3) ?A (G m') Null w"
  have A: "ref_of ?A \<noteq> None" and tA: "truthy ?A" using truthy_slot_path[OF live] by simp_all
  have mp: "metaPath obj [''listeners'', ev, G t'] True w = (Inr ?A, w)"
    using metaPath_existing[OF tA] by simp
  have e: "property w (Hash 3) ?A (G m') = ?a" by (simp add: slot_of_unfold)
  have z: "slot_of ?w1 obj ev (G t') (G m') = Null"
    using A by (simp add: slot_of_unfold property_store)
  obtain r w3 where c: "call F callback t' [] ?w1 = (r, w3)" by (cases "call F callback t' [] ?w1")
  have k: "registry_kept ?w1 w3" using kept_call[OF F c] .
  have s: "suspendListener G F obj ev target method callback w = (r, store (Hash 3) ?A (G m') ?a w3)"
    using n mp tA ref_not_nullish[OF A] e c
    by (simp add: suspendListener_def actionSetFor_def set_prop_def Let_def)
  obtain a where a: "ref_of ?A = Some a" using A by auto
  have lk: "DAList.lookup (heap w (Hash 3) a) (G m') = Some ?a"
    using live e a by (auto simp: property_def split: option.splits)
  have kk: "registry_kept w (store (Hash 3) ?A (G m') ?a w3)"
    using k a lk
    by (auto simp: registry_kept_def store_def update_alist_back update_alist_same fun_eq_iff)
  show ?thesis using z c s kk kept_live_slots_of[OF kk] by blast
qed

subsection \<open>\<open>invokeAction\<close> once target and method are known\<close>

lemma invokeAction_resolved:
  assumes nn: "\<not> nullish action"
      and target: "(if \<not> truthy (property w Action action ''target'') then get_index w params 0
                    else Inr (property w Action action ''target'')) = Inr target"
      and resolved: "(case property w Action action ''method'' of
                        Str name \<Rightarrow> get_prop w User target name
                      | _ \<Rightarrow> Inr (property w Action action ''method'')) = Inr method"
  shows "invokeAction F action params w =
     (case (if truthy (property w Action action ''xform'')
            then call F (property w Action action ''xform'') Undefined [target, method, params] w
            else (case apply_args w params of
                    Inl e \<Rightarrow> (Inl e, w)
                  | Inr args \<Rightarrow> call F method target args w)) of
        (Inl e, w3) \<Rightarrow> (Inl e, w3)
      | (Inr v, w3) \<Rightarrow> (Inr Undefined, w3))"
  using nn target resolved unfolding invokeAction_def Let_def by simp

lemma writing_transform:
  "live_actions w_writing (Obj 1) ''e'' = [Obj 104, Obj 106] \<and>
   property w_writing Action (Obj 104) ''xform'' = Func 12 \<and>
   fst (sendEvent F1 (Obj 1) ''e'' [Num 7] w_writing) = Inr (Bool True) \<and>
   calls (snd (sendEvent F1 (Obj 1) ''e'' [Num 7] w_writing)) =
     Array
       [Array [Func 12, Undefined, Array [Obj 2, Func 4, Array [Obj 1, Str ''e'', Num 7]]],
        Array [Func 5, Obj 3, Array [Obj 3, Str ''e'', Num 99]]]"
  by code_simp

section \<open>The claims\<close>

text \<open>
  Claim C1. When no function of the application changes the registry, \<open>sendEvent\<close> on
  an object, for an event name other than the reserved key, creates its \<^verbatim>\<open>arguments\<close>
  object, does what the object's own \<open>sendEvent\<close> hook does and then invokes the live
  actions of the event one after the other, each entry of \<open>live_slots_of\<close> once, handing
  the \<^verbatim>\<open>arguments\<close> object to each: the list has no identity (pair of guids) twice, and
  it holds exactly the entries of the registry that are neither tombstones nor under the
  reserved key. (An action that raises ends the fire: that is claim C6.)
\<close>

theorem sendEvent_invokes_each_live_action_once:
  assumes "registry_untouched F" and "\<not> nullish obj" and "\<not> SKIP_PROPERTIES eventName"
  shows "sendEvent F obj eventName args w =
           (case object_sendEvent F obj (Str eventName # args)
                   (snd (new_arguments (obj # Str eventName # args) w)) of
              (Inl e, w1) \<Rightarrow> (Inl e, w1)
            | (Inr u, w1) \<Rightarrow>
               (case invokeActions F (map snd (live_slots_of w obj eventName))
                       (Arguments (fresh w)) w1 of
                  (Inl e, w2) \<Rightarrow> (Inl e, w2)
                | (Inr r, w2) \<Rightarrow> (Inr (Bool True), w2)))
         \<and> distinct (map fst (live_slots_of w obj eventName))
         \<and> (\<forall>tg mg a. ((tg, mg), a) \<in> set (live_slots_of w obj eventName) \<longleftrightarrow>
               \<not> SKIP_PROPERTIES tg \<and> \<not> SKIP_PROPERTIES mg \<and>
               a = slot_of w obj eventName tg mg \<and> truthy a)"
  using sendEvent_eq[OF assms(1,2), of eventName args w, unfolded live_actions_def]
  by (simp add: distinct_live_slots_of mem_live_slots_of)

text \<open>
  Three listeners on the event \<^verbatim>\<open>e\<close>, fired with one argument: the log holds one call
  of each.
\<close>

theorem sendEvent_invokes_each_live_action_once_witness:
  "registry_untouched F1 \<and> \<not> nullish (Obj 1) \<and> \<not> SKIP_PROPERTIES ''e'' \<and>
   map fst (live_slots_of w_three (Obj 1) ''e'') =
     [(''o||'', ''f||||''), (''o||'', ''f|||||''), (''o|||'', ''f||||'')] \<and>
   fst (sendEvent F1 (Obj 1) ''e'' [Num 7] w_three) = Inr (Bool True) \<and>
   calls (snd (sendEvent F1 (Obj 1) ''e'' [Num 7] w_three)) =
     Array [Array [Func 4, Obj 2, Array [Obj 1, Str ''e'', Num 7]],
            Array [Func 5, Obj 2, Array [Obj 1, Str ''e'', Num 7]],
            Array [Func 4, Obj 3, Array [Obj 1, Str ''e'', Num 7]]]"
proof -
  have n: "\<not> nullish (Obj 1)" by simp
  have s: "\<not> SKIP_PROPERTIES ''e''" by (simp add: SKIP_PROPERTIES_def)
  have l: "map fst (live_slots_of w_three (Obj 1) ''e'') =
     [(''o||'', ''f||||''), (''o||'', ''f|||||''), (''o|||'', ''f||||'')]"
    by code_simp
  let ?rhs = "case object_sendEvent F1 (Obj 1) (Str ''e'' # [Num 7])
                   (snd (new_arguments (Obj 1 # Str ''e'' # [Num 7]) w_three)) of
              (Inl e, w1) \<Rightarrow> (Inl e, w1)
            | (Inr u, w1) \<Rightarrow>
               (case invokeActions F1 (map snd (live_slots_of w_three (Obj 1) ''e''))
                       (Arguments (fresh w_three)) w1 of
                  (Inl e, w2) \<Rightarrow> (Inl e, w2)
                | (Inr r, w2) \<Rightarrow> (Inr (Bool True), w2))"
  have e: "sendEvent F1 (Obj 1) ''e'' [Num 7] w_three = ?rhs"
    using sendEvent_invokes_each_live_action_once[OF registry_untouched_F1 n s, of "[Num 7]" w_three]
    by simp
  have r: "fst ?rhs = Inr (Bool True) \<and>
     calls (snd ?rhs) =
     Array [Array [Func 4, Obj 2, Array [Obj 1, Str ''e'', Num 7]],
            Array [Func 5, Obj 2, Array [Obj 1, Str ''e'', Num 7]],
            Array [Func 4, Obj 3, Array [Obj 1, Str ''e'', Num 7]]]"
    by code_simp
  show ?thesis using registry_untouched_F1 n s l r unfolding e by simp
qed

text \<open>
  Claim C2, as the code has it. \<open>deferEvent\<close> on an object that is neither
  \<^verbatim>\<open>null\<close> nor \<^verbatim>\<open>undefined\<close>, for an event name other than the reserved key, creates its
  \<^verbatim>\<open>arguments\<close> object, whose elements are the whole argument list of the call (the
  object, the event name, and then the arguments), changes nothing else and returns a
  closure that holds the actions live at that moment and that \<^verbatim>\<open>arguments\<close> object. Run
  in any later store in which the \<^verbatim>\<open>arguments\<close> object still has those elements, the
  closure does what the object's \<open>sendEvent\<close> hook does and then invokes exactly the
  captured actions, in order, handing that object to each; and an action that is
  invoked while the object still has those elements has its method called with the whole
  list (the object and the event name ahead of the arguments), or its transform with the
  object as third parameter. A listener that is registered after the capture under an
  identity that is not registered then is live in the registry afterwards, but its action
  is a new record and not among the captured ones (records allocated before), so the
  closure does not invoke it.
\<close>

theorem deferEvent_replays_snapshot:
  fixes G :: guid
  assumes evk: "\<not> SKIP_PROPERTIES eventName" and obj: "\<not> nullish obj"
  shows "deferEvent obj eventName args w =
           (Inr \<lparr>d_actions = live_actions w obj eventName, d_params = Arguments (fresh w)\<rparr>,
            snd (new_arguments (obj # Str eventName # args) w)) \<and>
         argobjs (snd (new_arguments (obj # Str eventName # args) w)) (fresh w)
           = obj # Str eventName # args \<and>
         (argobjs u (fresh w) = obj # Str eventName # args \<longrightarrow>
            run_deferred F \<lparr>d_actions = live_actions w obj eventName,
                             d_params = Arguments (fresh w)\<rparr> u =
              (case object_sendEvent F obj (Str eventName # args) u of
                 (Inl e, u1) \<Rightarrow> (Inl e, u1)
               | (Inr x, u1) \<Rightarrow>
                   invokeActions F (live_actions w obj eventName) (Arguments (fresh w)) u1)) \<and>
         (\<not> nullish action \<and> argobjs u2 (fresh w) = obj # Str eventName # args \<and>
          a_target = (if truthy (property u2 Action action ''target'')
                      then property u2 Action action ''target'' else obj) \<and>
          (case property u2 Action action ''method'' of
             Str name \<Rightarrow> get_prop u2 User a_target name
           | _ \<Rightarrow> Inr (property u2 Action action ''method'')) = Inr a_method \<longrightarrow>
            invokeAction F action (Arguments (fresh w)) u2 =
              (case (if truthy (property u2 Action action ''xform'')
                     then call F (property u2 Action action ''xform'') Undefined
                            [a_target, a_method, Arguments (fresh w)] u2
                     else call F a_method a_target (obj # Str eventName # args) u2) of
                 (Inl e, u3) \<Rightarrow> (Inl e, u3)
               | (Inr x, u3) \<Rightarrow> (Inr Undefined, u3))) \<and>
         (well_formed v \<and> registry_untouched F \<and> ref_of obj \<noteq> None \<and> eventName \<noteq> [] \<and>
          normalize target method = (t', m') \<and>
          \<not> SKIP_PROPERTIES (G t') \<and> \<not> SKIP_PROPERTIES (G m') \<and>
          \<not> truthy (slot_of v obj eventName (G t') (G m')) \<and>
          (\<forall>n. Obj n \<in> set (live_actions w obj eventName) \<longrightarrow> n < fresh v) \<longrightarrow>
            ((G t', G m'),
               slot_of (snd (addListener G F obj eventName target method xform v)) obj eventName (G t') (G m'))
              \<in> set (live_slots_of (snd (addListener G F obj eventName target method xform v)) obj eventName) \<and>
            slot_of (snd (addListener G F obj eventName target method xform v)) obj eventName (G t') (G m')
              \<notin> set (live_actions w obj eventName))"
proof -
  let ?p = "Arguments (fresh w)"
  let ?list = "obj # Str eventName # args"
  have 1: "deferEvent obj eventName args w =
           (Inr \<lparr>d_actions = live_actions w obj eventName, d_params = ?p\<rparr>,
            snd (new_arguments ?list w))"
    using obj by (rule deferEvent_eq)
  have 2: "run_deferred F \<lparr>d_actions = live_actions w obj eventName, d_params = ?p\<rparr> u =
              (case object_sendEvent F obj (Str eventName # args) u of
                 (Inl e, u1) \<Rightarrow> (Inl e, u1)
               | (Inr x, u1) \<Rightarrow> invokeActions F (live_actions w obj eventName) ?p u1)"
    if "argobjs u (fresh w) = ?list"
    using that by (simp add: run_deferred_def index_def split: prod.splits sum.splits)
  have 3: "invokeAction F action ?p u2 =
              (case (if truthy (property u2 Action action ''xform'')
                     then call F (property u2 Action action ''xform'') Undefined
                            [a_target, a_method, ?p] u2
                     else call F a_method a_target ?list u2) of
                 (Inl e, u3) \<Rightarrow> (Inl e, u3)
               | (Inr x, u3) \<Rightarrow> (Inr Undefined, u3))"
    if nn: "\<not> nullish action" and same: "argobjs u2 (fresh w) = ?list"
      and tg: "a_target = (if truthy (property u2 Action action ''target'')
                           then property u2 Action action ''target'' else obj)"
      and rs: "(case property u2 Action action ''method'' of
                  Str name \<Rightarrow> get_prop u2 User a_target name
                | _ \<Rightarrow> Inr (property u2 Action action ''method'')) = Inr a_method"
  proof -
    have t: "(if \<not> truthy (property u2 Action action ''target'') then get_index u2 ?p 0
              else Inr (property u2 Action action ''target'')) = Inr a_target"
      using tg same by (simp add: get_index_def index_def)
    have ap: "apply_args u2 ?p = Inr ?list" using same by simp
    show ?thesis unfolding invokeAction_resolved[OF nn t rs] ap by simp
  qed
  have 4: "((G t', G m'),
               slot_of (snd (addListener G F obj eventName target method xform v)) obj eventName (G t') (G m'))
              \<in> set (live_slots_of (snd (addListener G F obj eventName target method xform v)) obj eventName) \<and>
            slot_of (snd (addListener G F obj eventName target method xform v)) obj eventName (G t') (G m')
              \<notin> set (live_actions w obj eventName)"
    if wf: "well_formed v" and F: "registry_untouched F" and ro: "ref_of obj \<noteq> None"
      and ev: "eventName \<noteq> []" and n: "normalize target method = (t', m')"
      and sk: "\<not> SKIP_PROPERTIES (G t')" "\<not> SKIP_PROPERTIES (G m')"
      and nt: "\<not> truthy (slot_of v obj eventName (G t') (G m'))"
      and al: "\<forall>n. Obj n \<in> set (live_actions w obj eventName) \<longrightarrow> n < fresh v"
  proof -
    note post = addListener_post[where G=G and x=xform, OF wf F ro ev n]
    let ?w2 = "snd (addListener G F obj eventName target method xform v)"
    let ?a = "slot_of ?w2 obj eventName (G t') (G m')"
    obtain k where k: "?a = Obj k" "fresh v \<le> k" using post(5)[OF nt evk sk] by blast
    have "?a \<notin> set (live_actions w obj eventName)" using al k by auto
    moreover have "((G t', G m'), ?a) \<in> set (live_slots_of ?w2 obj eventName)"
      using sk ref_truthy[OF post(1)] by (simp add: mem_live_slots_of)
    ultimately show ?thesis by simp
  qed
  show ?thesis
    apply (intro conjI impI)
         apply (rule 1)
        apply simp
       apply (erule 2)
      apply (elim conjE, rule 3; assumption)
     apply (elim conjE, rule 4[THEN conjunct1]; assumption)
    apply (elim conjE, rule 4[THEN conjunct2]; assumption)
    done
qed

text \<open>
  The scenario of the specification: L1 is registered, the closure is taken with the
  arguments 1 and 2, L2 is registered, the closure is run. The closure holds the one
  action of L1, which is invoked with the four elements of the \<^verbatim>\<open>arguments\<close> object; L2
  is live in the registry and not in the closure; the log of calls has one entry, for L1.
\<close>

theorem deferEvent_replays_snapshot_witness:
  "\<not> SKIP_PROPERTIES ''e'' \<and> \<not> nullish (Obj 1) \<and>
   deferEvent (Obj 1) ''e'' [Num 1, Num 2] w_L1 = (Inr closure_L1, w_L1_deferred) \<and>
   d_actions closure_L1 = [Obj 104] \<and>
   argobjs w_L2 (fresh w_L1) = [Obj 1, Str ''e'', Num 1, Num 2] \<and>
   run_deferred F1 closure_L1 w_L2 =
     (case object_sendEvent F1 (Obj 1) [Str ''e'', Num 1, Num 2] w_L2 of
        (Inl e, u1) \<Rightarrow> (Inl e, u1)
      | (Inr x, u1) \<Rightarrow> invokeActions F1 [Obj 104] (Arguments (fresh w_L1)) u1) \<and>
   invokeAction F1 (Obj 104) (Arguments (fresh w_L1)) w_L2 =
     (case call F1 (Func 4) (Obj 2) [Obj 1, Str ''e'', Num 1, Num 2] w_L2 of
        (Inl e, u3) \<Rightarrow> (Inl e, u3)
      | (Inr x, u3) \<Rightarrow> (Inr Undefined, u3)) \<and>
   ((G0 (Obj 2), G0 (Func 5)), slot_of w_L2 (Obj 1) ''e'' (G0 (Obj 2)) (G0 (Func 5)))
      \<in> set (live_slots_of w_L2 (Obj 1) ''e'') \<and>
   slot_of w_L2 (Obj 1) ''e'' (G0 (Obj 2)) (G0 (Func 5)) \<notin> set (d_actions closure_L1) \<and>
   calls (snd (run_deferred F1 closure_L1 w_L2)) =
     Array [Array [Func 4, Obj 2, Array [Obj 1, Str ''e'', Num 1, Num 2]]]"
proof -
  have evk: "\<not> SKIP_PROPERTIES ''e''" by (simp add: SKIP_PROPERTIES_def)
  have nn: "\<not> nullish (Obj 1)" by simp
  note t = deferEvent_replays_snapshot[where G=G0 and F=F1 and obj="Obj 1" and eventName="''e''"
      and args="[Num 1, Num 2]" and w=w_L1 and u=w_L2 and action="Obj 104" and a_target="Obj 2"
      and a_method="Func 4" and v=w_L1_deferred and target="Obj 2"
      and t'="Obj 2" and m'="Func 5" and xform=Undefined, OF evk nn, of w_L2 "Func 5"]
  have la: "live_actions w_L1 (Obj 1) ''e'' = [Obj 104]" by code_simp
  have c: "closure_L1 = \<lparr>d_actions = live_actions w_L1 (Obj 1) ''e'',
                          d_params = Arguments (fresh w_L1)\<rparr>"
    by (simp add: closure_L1_def)
  have d: "w_L1_deferred = snd (new_arguments (Obj 1 # Str ''e'' # [Num 1, Num 2]) w_L1)"
    using t by (simp add: w_L1_deferred_def)
  have 1: "deferEvent (Obj 1) ''e'' [Num 1, Num 2] w_L1 = (Inr closure_L1, w_L1_deferred)"
    using t unfolding c d by blast
  have same: "argobjs w_L2 (fresh w_L1) = Obj 1 # Str ''e'' # [Num 1, Num 2]" by code_simp
  have 2: "run_deferred F1 closure_L1 w_L2 =
     (case object_sendEvent F1 (Obj 1) [Str ''e'', Num 1, Num 2] w_L2 of
        (Inl e, u1) \<Rightarrow> (Inl e, u1)
      | (Inr x, u1) \<Rightarrow> invokeActions F1 [Obj 104] (Arguments (fresh w_L1)) u1)"
    using t same unfolding c la by blast
  have tg: "Obj 2 = (if truthy (property w_L2 Action (Obj 104) ''target'')
                     then property w_L2 Action (Obj 104) ''target'' else Obj 1)"
    by code_simp
  have rs: "(case property w_L2 Action (Obj 104) ''method'' of
               Str name \<Rightarrow> get_prop w_L2 User (Obj 2) name
             | _ \<Rightarrow> Inr (property w_L2 Action (Obj 104) ''method'')) = Inr (Func 4)"
    by code_simp
  have x: "\<not> truthy (property w_L2 Action (Obj 104) ''xform'')" by code_simp
  have n104: "\<not> nullish (Obj 104)" by simp
  have "invokeAction F1 (Obj 104) (Arguments (fresh w_L1)) w_L2 =
              (case (if truthy (property w_L2 Action (Obj 104) ''xform'')
                     then call F1 (property w_L2 Action (Obj 104) ''xform'') Undefined
                            [Obj 2, Func 4, Arguments (fresh w_L1)] w_L2
                     else call F1 (Func 4) (Obj 2) (Obj 1 # Str ''e'' # [Num 1, Num 2]) w_L2) of
                 (Inl e, u3) \<Rightarrow> (Inl e, u3)
               | (Inr x, u3) \<Rightarrow> (Inr Undefined, u3))"
    using t n104 same tg rs by blast
  then have 3: "invokeAction F1 (Obj 104) (Arguments (fresh w_L1)) w_L2 =
     (case call F1 (Func 4) (Obj 2) [Obj 1, Str ''e'', Num 1, Num 2] w_L2 of
        (Inl e, u3) \<Rightarrow> (Inl e, u3)
      | (Inr x, u3) \<Rightarrow> (Inr Undefined, u3))"
    using x by simp
  have wf1: "well_formed w_L1"
    unfolding w_L1_def
    by (rule addListener_post(3)[OF well_formed_init registry_untouched_F1 _ _ normalize_pair]) simp_all
  have wf: "well_formed w_L1_deferred"
    unfolding d using wf1 kept_well_formed[OF new_arguments_kept] by blast
  have nt: "\<not> truthy (slot_of w_L1_deferred (Obj 1) ''e'' (G0 (Obj 2)) (G0 (Func 5)))" by code_simp
  have fr: "fresh w_L1_deferred = 106" by code_simp
  have al: "\<forall>n. Obj n \<in> set (live_actions w_L1 (Obj 1) ''e'') \<longrightarrow> n < fresh w_L1_deferred"
    unfolding la fr by simp
  have ro: "ref_of (Obj 1) \<noteq> None" "''e'' \<noteq> []" "normalize (Obj 2) (Func 5) = (Obj 2, Func 5)"
       "\<not> SKIP_PROPERTIES (G0 (Obj 2))" "\<not> SKIP_PROPERTIES (G0 (Func 5))"
    by simp_all
  have 4: "((G0 (Obj 2), G0 (Func 5)), slot_of w_L2 (Obj 1) ''e'' (G0 (Obj 2)) (G0 (Func 5)))
      \<in> set (live_slots_of w_L2 (Obj 1) ''e'') \<and>
   slot_of w_L2 (Obj 1) ''e'' (G0 (Obj 2)) (G0 (Func 5)) \<notin> set (live_actions w_L1 (Obj 1) ''e'')"
    using t wf registry_untouched_F1 ro nt al unfolding w_L2_def[symmetric] by blast
  have da: "d_actions closure_L1 = [Obj 104]" by code_simp
  have e: "calls (snd (run_deferred F1 closure_L1 w_L2)) =
     Array [Array [Func 4, Obj 2, Array [Obj 1, Str ''e'', Num 1, Num 2]]]"
    by code_simp
  show ?thesis using evk nn 1 2 3 4 da e la same by simp
qed

text \<open>
  In that scenario L1 is called with the four arguments \<open>Obj 1\<close>, \<^verbatim>\<open>e\<close>, 1, 2, and not
  with the two arguments 1, 2.
\<close>

theorem deferEvent_scenario_counterexample:
  "fst (deferEvent (Obj 1) ''e'' [Num 1, Num 2] w_L1) = Inr closure_L1 \<and>
   fst (run_deferred F1 closure_L1 w_L2) = Inr Undefined \<and>
   calls (snd (run_deferred F1 closure_L1 w_L2)) =
     Array [Array [Func 4, Obj 2, Array [Obj 1, Str ''e'', Num 1, Num 2]]] \<and>
   calls (snd (run_deferred F1 closure_L1 w_L2)) \<noteq>
     Array [Array [Func 4, Obj 2, Array [Num 1, Num 2]]]"
  by code_simp

text \<open>
  Claim C3 at one input. The listener (\<open>Obj 2\<close>, function 4) is the only one of the
  event \<^verbatim>\<open>x:changed\<close> of \<open>Obj 1\<close>, and a fire invokes it. It is suspended around the
  function at address 8, which calls \<open>hasListeners\<close> for that object and event. While
  the action is suspended \<open>hasListeners\<close> finds no listener, answers \<^verbatim>\<open>false\<close> and
  sets the entry of the event in the listeners hash to \<^verbatim>\<open>null\<close>.
  \<open>suspendListener\<close> returns that answer and puts the action back into the action set
  it holds, which the registry no longer reaches: after the suspension the event has no
  live action, and a fire invokes nothing. (Around a callback that leaves the registry
  alone the same actions are live afterwards as before: \<open>suspendListener_restores\<close>.)
\<close>

theorem suspendListener_hasListeners_detaches:
  "live_actions w_changed (Obj 1) ''x:changed'' = [Obj 104] \<and>
   calls (snd (sendEvent F0 (Obj 1) ''x:changed'' [] w_changed)) =
     Array [Array [Func 4, Obj 2, Array [Obj 1, Str ''x:changed'']]] \<and>
   fst (suspendListener G0 F0 (Obj 1) ''x:changed'' (Obj 2) (Func 4) (Func 8) w_changed)
     = Inr (Bool False) \<and>
   property w_suspended (Hash 3) (Obj 103) (G0 (Func 4)) = Obj 104 \<and>
   registry_path w_suspended (Obj 1) [''listeners'', ''x:changed''] = Null \<and>
   live_actions w_suspended (Obj 1) ''x:changed'' = [] \<and>
   fst (sendEvent F0 (Obj 1) ''x:changed'' [] w_suspended) = Inr (Bool True) \<and>
   calls (snd (sendEvent F0 (Obj 1) ''x:changed'' [] w_suspended)) = Undefined"
  by code_simp

text \<open>
  Claim C4. Registering the same listener (object, event name, target, method) twice,
  the second time with another transform, leaves exactly one live action under that
  identity in the registry of the event: it is the action record that the first
  registration made, and its transform is the one given last.
\<close>

theorem addListener_twice:
  fixes G :: guid and xform_a xform_b :: val
  assumes wf: "well_formed w" and F: "registry_untouched F" and obj: "ref_of obj \<noteq> None"
      and ev: "eventName \<noteq> []" and n: "normalize target method = (t', m')"
      and sk: "\<not> SKIP_PROPERTIES (G t')" "\<not> SKIP_PROPERTIES (G m')"
      and w1: "w1 = snd (addListener G F obj eventName target method xform_a w)"
      and w2: "w2 = snd (addListener G F obj eventName target method xform_b w1)"
  shows "\<exists>a. filter (\<lambda>(k, a). k = (G t', G m')) (live_slots_of w2 obj eventName) = [((G t', G m'), a)] \<and>
             property w2 Action a ''xform'' = xform_b \<and>
             a = slot_of w1 obj eventName (G t') (G m')"
proof -
  note p1 = addListener_post[where G=G and x=xform_a, OF wf F obj ev n, folded w1]
  note p2 = addListener_post[where G=G and x=xform_b, OF p1(3) F obj ev n, folded w2]
  let ?a = "slot_of w2 obj eventName (G t') (G m')"
  have same: "?a = slot_of w1 obj eventName (G t') (G m')"
    using p2(4) ref_truthy[OF p1(1)] by simp
  have "((G t', G m'), ?a) \<in> set (live_slots_of w2 obj eventName)"
    using sk ref_truthy[OF p2(1)] by (simp add: mem_live_slots_of)
  from filter_distinct_key[OF distinct_live_slots_of this] p2(2) same show ?thesis by blast
qed

text \<open>
  The listener (\<open>Obj 2\<close>, function 4) on the event \<^verbatim>\<open>e\<close> of \<open>Obj 1\<close>, registered with
  the transform at address 6 and then with the one at address 7.
\<close>

theorem addListener_twice_witness:
  "well_formed w_init \<and> registry_untouched F1 \<and>
   (\<exists>a. filter (\<lambda>(k, a). k = (G0 (Obj 2), G0 (Func 4))) (live_slots_of w_reg2 (Obj 1) ''e'')
           = [((G0 (Obj 2), G0 (Func 4)), a)] \<and>
        property w_reg2 Action a ''xform'' = Func 7 \<and>
        a = slot_of w_reg1 (Obj 1) ''e'' (G0 (Obj 2)) (G0 (Func 4))) \<and>
   live_slots_of w_reg2 (Obj 1) ''e'' = [((''o||'', ''f||||''), Obj 104)] \<and>
   property w_reg1 Action (Obj 104) ''xform'' = Func 6 \<and>
   property w_reg2 Action (Obj 104) ''xform'' = Func 7"
proof -
  have t: "\<exists>a. filter (\<lambda>(k, a). k = (G0 (Obj 2), G0 (Func 4))) (live_slots_of w_reg2 (Obj 1) ''e'')
           = [((G0 (Obj 2), G0 (Func 4)), a)] \<and>
        property w_reg2 Action a ''xform'' = Func 7 \<and>
        a = slot_of w_reg1 (Obj 1) ''e'' (G0 (Obj 2)) (G0 (Func 4))"
    by (rule addListener_twice[where G=G0 and F=F1 and w=w_init and t'="Obj 2" and m'="Func 4"
          and xform_a="Func 6" and xform_b="Func 7", OF well_formed_init registry_untouched_F1 _ _ _ _ _
          w_reg1_def w_reg2_def]) simp_all
  have e: "live_slots_of w_reg2 (Obj 1) ''e'' = [((''o||'', ''f||||''), Obj 104)] \<and>
   property w_reg1 Action (Obj 104) ''xform'' = Func 6 \<and>
   property w_reg2 Action (Obj 104) ''xform'' = Func 7"
    by code_simp
  show ?thesis using well_formed_init registry_untouched_F1 t e by blast
qed

text \<open>
  Claim C5. After \<open>removeListener\<close>, whatever was registered before, the removed
  identity is not among the live actions of the event, and \<open>sendEvent\<close> on the same
  object and event (an event name other than the reserved key) invokes the live actions of
  the store that \<open>removeListener\<close> left, so not the removed one. And \<open>removeListener\<close>
  on an object without a \<open>didRemoveListener\<close> hook returns normally, whether or not the
  pair was ever registered.
\<close>

theorem removeListener_then_sendEvent:
  assumes F: "registry_untouched F" and n: "normalize target method = (t', m')"
      and rm: "removeListener G F obj eventName target method w = (r, w1)"
  shows "(\<forall>a. ((G t', G m'), a) \<notin> set (live_slots_of w1 obj eventName)) \<and>
         (\<not> nullish obj \<and> \<not> SKIP_PROPERTIES eventName \<longrightarrow>
            sendEvent F obj eventName args w1 =
              (case object_sendEvent F obj (Str eventName # args)
                      (snd (new_arguments (obj # Str eventName # args) w1)) of
                 (Inl e, w2) \<Rightarrow> (Inl e, w2)
               | (Inr u, w2) \<Rightarrow>
                  (case invokeActions F (map snd (live_slots_of w1 obj eventName))
                          (Arguments (fresh w1)) w2 of
                     (Inl e, w3) \<Rightarrow> (Inl e, w3)
                   | (Inr v, w3) \<Rightarrow> (Inr (Bool True), w3)))) \<and>
         (ref_of obj \<noteq> None \<longrightarrow> \<not> is_function (property w User obj ''didRemoveListener'') \<longrightarrow>
            r = Inr Undefined)"
proof -
  have "\<not> truthy (slot_of w1 obj eventName (G t') (G m'))"
    using removeListener_slot[OF F n rm] .
  then have 1: "\<forall>a. ((G t', G m'), a) \<notin> set (live_slots_of w1 obj eventName)"
    by (auto simp: mem_live_slots_of)
  have 3: "ref_of obj \<noteq> None \<Longrightarrow> \<not> is_function (property w User obj ''didRemoveListener'') \<Longrightarrow>
            r = Inr Undefined"
    using removeListener_result[OF _ n, of obj w G F eventName] rm by simp
  show ?thesis
    using 1 3 sendEvent_eq[OF F, of obj eventName args w1, unfolded live_actions_def] by blast
qed

text \<open>
  Removing the second of three listeners, and removing a pair that was never
  registered.
\<close>

theorem removeListener_then_sendEvent_witness:
  "registry_untouched F1 \<and> \<not> SKIP_PROPERTIES ''e'' \<and>
   (\<forall>a. ((G0 (Obj 2), G0 (Func 5)), a) \<notin> set (live_slots_of w_removed (Obj 1) ''e'')) \<and>
   fst (removeListener G0 F1 (Obj 1) ''e'' (Obj 2) (Func 5) w_three) = Inr Undefined \<and>
   fst (removeListener G0 F1 (Obj 1) ''e'' (Obj 3) (Func 5) w_three) = Inr Undefined \<and>
   map fst (live_slots_of w_removed (Obj 1) ''e'') = [(''o||'', ''f||||''), (''o|||'', ''f||||'')] \<and>
   calls (snd (sendEvent F1 (Obj 1) ''e'' [Num 7] w_removed)) =
     Array [Array [Func 4, Obj 2, Array [Obj 1, Str ''e'', Num 7]],
            Array [Func 4, Obj 3, Array [Obj 1, Str ''e'', Num 7]]]"
proof -
  have rm: "removeListener G0 F1 (Obj 1) ''e'' (Obj 2) (Func 5) w_three =
              (fst (removeListener G0 F1 (Obj 1) ''e'' (Obj 2) (Func 5) w_three), w_removed)"
    by (simp add: w_removed_def)
  have rm': "removeListener G0 F1 (Obj 1) ''e'' (Obj 3) (Func 5) w_three =
              (fst (removeListener G0 F1 (Obj 1) ''e'' (Obj 3) (Func 5) w_three),
               snd (removeListener G0 F1 (Obj 1) ''e'' (Obj 3) (Func 5) w_three))"
    by simp
  have h: "\<not> is_function (property w_three User (Obj 1) ''didRemoveListener'')" by code_simp
  have sk: "\<not> SKIP_PROPERTIES ''e''" by (simp add: SKIP_PROPERTIES_def)
  note t = removeListener_then_sendEvent[where G=G0 and args="[Num 7]", OF registry_untouched_F1 normalize_pair rm]
  note t' = removeListener_then_sendEvent[where G=G0 and args="[Num 7]", OF registry_untouched_F1 normalize_pair rm']
  have 1: "\<forall>a. ((G0 (Obj 2), G0 (Func 5)), a) \<notin> set (live_slots_of w_removed (Obj 1) ''e'')"
    using t by blast
  have 2: "fst (removeListener G0 F1 (Obj 1) ''e'' (Obj 2) (Func 5) w_three) = Inr Undefined"
    using t h by simp
  have 3: "fst (removeListener G0 F1 (Obj 1) ''e'' (Obj 3) (Func 5) w_three) = Inr Undefined"
    using t' h by simp
  have s: "sendEvent F1 (Obj 1) ''e'' [Num 7] w_removed =
              (case object_sendEvent F1 (Obj 1) (Str ''e'' # [Num 7])
                      (snd (new_arguments (Obj 1 # Str ''e'' # [Num 7]) w_removed)) of
                 (Inl e, w2) \<Rightarrow> (Inl e, w2)
               | (Inr u, w2) \<Rightarrow>
                  (case invokeActions F1 (map snd (live_slots_of w_removed (Obj 1) ''e''))
                          (Arguments (fresh w_removed)) w2 of
                     (Inl e, w3) \<Rightarrow> (Inl e, w3)
                   | (Inr v, w3) \<Rightarrow> (Inr (Bool True), w3)))"
    using t sk by simp
  have e: "map fst (live_slots_of w_removed (Obj 1) ''e'') = [(''o||'', ''f||||''), (''o|||'', ''f||||'')] \<and>
     calls (snd (case object_sendEvent F1 (Obj 1) (Str ''e'' # [Num 7])
                      (snd (new_arguments (Obj 1 # Str ''e'' # [Num 7]) w_removed)) of
                 (Inl e, w2) \<Rightarrow> (Inl e, w2)
               | (Inr u, w2) \<Rightarrow>
                  (case invokeActions F1 (map snd (live_slots_of w_removed (Obj 1) ''e''))
                          (Arguments (fresh w_removed)) w2 of
                     (Inl e, w3) \<Rightarrow> (Inl e, w3)
                   | (Inr v, w3) \<Rightarrow> (Inr (Bool True), w3)))) =
     Array [Array [Func 4, Obj 2, Array [Obj 1, Str ''e'', Num 7]],
            Array [Func 4, Obj 3, Array [Obj 1, Str ''e'', Num 7]]]"
    by code_simp
  show ?thesis using registry_untouched_F1 sk 1 2 3 e unfolding s by blast
qed

text \<open>
  Claim C6. A fire, for an event name other than the reserved key, is followed up to an
  action whose method or transform raises: the object's hook has returned, the keys
  \<open>tgs1\<close> of the target set before the target of that action have been visited without
  a raise, and so have the keys \<open>mgs1\<close> before the action in its action set. The
  action is live, its target and method are resolved, and the call of its transform (when
  it has one) or else of its method raises \<open>e\<close> and leaves the store \<open>w4\<close>. Then
  \<open>sendEvent\<close> ends with exactly \<open>e\<close> in exactly \<open>w4\<close>: the error is neither
  caught nor wrapped, and nothing runs after it, neither the keys \<open>mgs2\<close> and \<open>tgs2\<close>
  that were still to come nor anything else.
\<close>

theorem sendEvent_error_aborts:
  assumes ev: "\<not> SKIP_PROPERTIES eventName"
      and hook: "object_sendEvent F obj (Str eventName # args)
                   (snd (new_arguments (obj # Str eventName # args) w)) = (Inr u, w1)"
      and tset: "targetSetFor obj eventName w1 = (Inr targetSet, w1)"
      and tkeys: "keys w1 (Hash 2) targetSet = tgs1 @ targetGuid # tgs2"
      and tdone: "iterate_targets (invokeAction_cb F) targetSet tgs1 (Arguments (fresh w)) () w1
                    = (Inr False, (), w2)"
      and tg: "\<not> SKIP_PROPERTIES targetGuid"
      and aset: "property w2 (Hash 2) targetSet targetGuid = actionSet" "truthy actionSet"
      and mkeys: "keys w2 (Hash 3) actionSet = mgs1 @ methodGuid # mgs2"
      and mdone: "iterate_methods (invokeAction_cb F) actionSet mgs1 (Arguments (fresh w)) () w2
                    = (Inr False, (), w3)"
      and mg: "\<not> SKIP_PROPERTIES methodGuid"
      and act: "property w3 (Hash 3) actionSet methodGuid = action" "truthy action"
      and target: "target = (if truthy (property w3 Action action ''target'')
                             then property w3 Action action ''target''
                             else index w3 (Arguments (fresh w)) 0)"
      and resolved: "(case property w3 Action action ''method'' of
                        Str name \<Rightarrow> get_prop w3 User target name
                      | _ \<Rightarrow> Inr (property w3 Action action ''method'')) = Inr method"
      and raise: "(if truthy (property w3 Action action ''xform'')
                   then call F (property w3 Action action ''xform'') Undefined
                          [target, method, Arguments (fresh w)] w3
                   else call F method target (argobjs w3 (fresh w)) w3) = (Inl e, w4)"
  shows "sendEvent F obj eventName args w = (Inl e, w4)"
proof -
  let ?p = "Arguments (fresh w)"
  have nn: "\<not> nullish action" using act(2) by (cases action) auto
  have t: "truthy targetSet" using tkeys keys_truthy[of w1 "Hash 2" targetSet] by simp
  have tt: "(if \<not> truthy (property w3 Action action ''target'') then get_index w3 ?p 0
             else Inr (property w3 Action action ''target'')) = Inr target"
    using target by (simp add: get_index_def)
  have ia: "invokeAction F action ?p w3 = (Inl e, w4)"
    unfolding invokeAction_resolved[OF nn tt resolved] using raise
    by (auto split: if_splits)
  have m: "iterate_methods (invokeAction_cb F) actionSet (keys w2 (Hash 3) actionSet) ?p () w2
             = (Inl e, (), w4)"
    unfolding mkeys iterate_methods_append mdone
    using mg act ia by (simp add: invokeAction_cb_def)
  have "iterate_targets (invokeAction_cb F) targetSet (keys w1 (Hash 2) targetSet) ?p () w1
          = (Inl e, (), w4)"
    unfolding tkeys iterate_targets_append tdone
    using tg aset m by simp
  then show ?thesis
    using hook tset t by (simp add: sendEvent_def case_new_arguments iterateSet_def)
qed

text \<open>
  Three listeners, fired without arguments. In \<open>w_boom\<close> the method of the second
  throws, in \<open>w_boomx\<close> its transform: both fires end with what was thrown, and the log
  of calls holds the first listener only.
\<close>

theorem sendEvent_error_aborts_witness:
  "sendEvent F1 (Obj 1) ''e'' [] w_boom = (Inl (Thrown (Str ''boom'')), w_boom_turn) \<and>
   live_actions w_boom (Obj 1) ''e'' = [Obj 104, Obj 105, Obj 107] \<and>
   property w_boom Action (Obj 105) ''method'' = Func 10 \<and>
   property w_boom Action (Obj 105) ''xform'' = Undefined \<and>
   calls w_boom_turn = Array [Array [Func 4, Obj 2, Array [Obj 1, Str ''e'']]] \<and>
   sendEvent F1 (Obj 1) ''e'' [] w_boomx = (Inl (Thrown (Str ''boom'')), w_boomx_turn) \<and>
   live_actions w_boomx (Obj 1) ''e'' = [Obj 104, Obj 105, Obj 107] \<and>
   property w_boomx Action (Obj 105) ''method'' = Func 5 \<and>
   property w_boomx Action (Obj 105) ''xform'' = Func 10 \<and>
   calls w_boomx_turn = Array [Array [Func 4, Obj 2, Array [Obj 1, Str ''e'']]]"
proof -
  have ev: "\<not> SKIP_PROPERTIES ''e''" by (simp add: SKIP_PROPERTIES_def)
  have sk: "SKIP_PROPERTIES ''__ember_source__''" by (simp add: SKIP_PROPERTIES_def)
  have tg: "\<not> SKIP_PROPERTIES (G0 (Obj 2))" by simp
  have mg: "\<not> SKIP_PROPERTIES (G0 (Func 10))" "\<not> SKIP_PROPERTIES (G0 (Func 5))" by simp_all
  have a: "sendEvent F1 (Obj 1) ''e'' [] w_boom = (Inl (Thrown (Str ''boom'')), w_boom_turn)"
  proof -
    let ?w0 = "snd (new_arguments (Obj 1 # Str ''e'' # []) w_boom)"
    let ?p = "Arguments (fresh w_boom)"
    have hook: "object_sendEvent F1 (Obj 1) (Str ''e'' # []) ?w0 = (Inr (), ?w0)"
    proof (rule object_sendEvent_no_hook)
      show "\<not> nullish (Obj 1)" by simp
      show "\<not> is_function (property ?w0 User (Obj 1) ''sendEvent'')" by code_simp
    qed
    have tf: "fst (targetSetFor (Obj 1) ''e'' ?w0) = Inr (Obj 102)" by code_simp
    have tset: "targetSetFor (Obj 1) ''e'' ?w0 = (Inr (Obj 102), ?w0)"
      using tf targetSetFor_world[of "Obj 1" "''e''" ?w0]
      by (cases "targetSetFor (Obj 1) ''e'' ?w0") simp
    have tkeys: "keys ?w0 (Hash 2) (Obj 102) = [''__ember_source__''] @ G0 (Obj 2) # [G0 (Obj 3)]"
      by code_simp
    have tdone: "iterate_targets (invokeAction_cb F1) (Obj 102) [''__ember_source__''] ?p () ?w0
                   = (Inr False, (), ?w0)"
      using sk by simp
    have as: "property ?w0 (Hash 2) (Obj 102) (G0 (Obj 2)) = Obj 103" "truthy (Obj 103)"
      by code_simp+
    have mkeys: "keys ?w0 (Hash 3) (Obj 103) = [''__ember_source__'', G0 (Func 4)] @ G0 (Func 10) # []"
      by code_simp
    have mf: "fst (iterate_methods (invokeAction_cb F1) (Obj 103)
                 [''__ember_source__'', G0 (Func 4)] ?p () ?w0) = Inr False"
      by code_simp
    have mdone: "iterate_methods (invokeAction_cb F1) (Obj 103)
                   [''__ember_source__'', G0 (Func 4)] ?p () ?w0 = (Inr False, (), w_boom_turn)"
      by (rule triple_eqI[OF mf]) (simp add: w_boom_turn_def)
    have act: "property w_boom_turn (Hash 3) (Obj 103) (G0 (Func 10)) = Obj 105" "truthy (Obj 105)"
      by code_simp+
    have target: "Obj 2 = (if truthy (property w_boom_turn Action (Obj 105) ''target'')
                           then property w_boom_turn Action (Obj 105) ''target''
                           else index w_boom_turn ?p 0)"
      by code_simp
    have resolved: "(case property w_boom_turn Action (Obj 105) ''method'' of
                        Str name \<Rightarrow> get_prop w_boom_turn User (Obj 2) name
                      | _ \<Rightarrow> Inr (property w_boom_turn Action (Obj 105) ''method'')) = Inr (Func 10)"
      by code_simp
    have x: "\<not> truthy (property w_boom_turn Action (Obj 105) ''xform'')" by code_simp
    have raise: "(if truthy (property w_boom_turn Action (Obj 105) ''xform'')
                   then call F1 (property w_boom_turn Action (Obj 105) ''xform'') Undefined
                          [Obj 2, Func 10, ?p] w_boom_turn
                   else call F1 (Func 10) (Obj 2) (argobjs w_boom_turn (fresh w_boom)) w_boom_turn)
                 = (Inl (Thrown (Str ''boom'')), w_boom_turn)"
      using x by (simp add: call_def F1_def)
    show ?thesis
      by (rule sendEvent_error_aborts[OF ev hook tset tkeys tdone tg as mkeys mdone mg(1) act
                target resolved raise])
  qed
  have b: "sendEvent F1 (Obj 1) ''e'' [] w_boomx = (Inl (Thrown (Str ''boom'')), w_boomx_turn)"
  proof -
    let ?w0 = "snd (new_arguments (Obj 1 # Str ''e'' # []) w_boomx)"
    let ?p = "Arguments (fresh w_boomx)"
    have hook: "object_sendEvent F1 (Obj 1) (Str ''e'' # []) ?w0 = (Inr (), ?w0)"
    proof (rule object_sendEvent_no_hook)
      show "\<not> nullish (Obj 1)" by simp
      show "\<not> is_function (property ?w0 User (Obj 1) ''sendEvent'')" by code_simp
    qed
    have tf: "fst (targetSetFor (Obj 1) ''e'' ?w0) = Inr (Obj 102)" by code_simp
    have tset: "targetSetFor (Obj 1) ''e'' ?w0 = (Inr (Obj 102), ?w0)"
      using tf targetSetFor_world[of "Obj 1" "''e''" ?w0]
      by (cases "targetSetFor (Obj 1) ''e'' ?w0") simp
    have tkeys: "keys ?w0 (Hash 2) (Obj 102) = [''__ember_source__''] @ G0 (Obj 2) # [G0 (Obj 3)]"
      by code_simp
    have tdone: "iterate_targets (invokeAction_cb F1) (Obj 102) [''__ember_source__''] ?p () ?w0
                   = (Inr False, (), ?w0)"
      using sk by simp
    have as: "property ?w0 (Hash 2) (Obj 102) (G0 (Obj 2)) = Obj 103" "truthy (Obj 103)"
      by code_simp+
    have mkeys: "keys ?w0 (Hash 3) (Obj 103) = [''__ember_source__'', G0 (Func 4)] @ G0 (Func 5) # []"
      by code_simp
    have mf: "fst (iterate_methods (invokeAction_cb F1) (Obj 103)
                 [''__ember_source__'', G0 (Func 4)] ?p () ?w0) = Inr False"
      by code_simp
    have mdone: "iterate_methods (invokeAction_cb F1) (Obj 103)
                   [''__ember_source__'', G0 (Func 4)] ?p () ?w0 = (Inr False, (), w_boomx_turn)"
      by (rule triple_eqI[OF mf]) (simp add: w_boomx_turn_def)
    have act: "property w_boomx_turn (Hash 3) (Obj 103) (G0 (Func 5)) = Obj 105" "truthy (Obj 105)"
      by code_simp+
    have target: "Obj 2 = (if truthy (property w_boomx_turn Action (Obj 105) ''target'')
                           then property w_boomx_turn Action (Obj 105) ''target''
                           else index w_boomx_turn ?p 0)"
      by code_simp
    have resolved: "(case property w_boomx_turn Action (Obj 105) ''method'' of
                        Str name \<Rightarrow> get_prop w_boomx_turn User (Obj 2) name
                      | _ \<Rightarrow> Inr (property w_boomx_turn Action (Obj 105) ''method'')) = Inr (Func 5)"
      by code_simp
    have x: "property w_boomx_turn Action (Obj 105) ''xform'' = Func 10" by code_simp
    have raise: "(if truthy (property w_boomx_turn Action (Obj 105) ''xform'')
                   then call F1 (property w_boomx_turn Action (Obj 105) ''xform'') Undefined
                          [Obj 2, Func 5, ?p] w_boomx_turn
                   else call F1 (Func 5) (Obj 2) (argobjs w_boomx_turn (fresh w_boomx)) w_boomx_turn)
                 = (Inl (Thrown (Str ''boom'')), w_boomx_turn)"
      unfolding x by (simp add: call_def F1_def)
    show ?thesis
      by (rule sendEvent_error_aborts[OF ev hook tset tkeys tdone tg as mkeys mdone mg(2) act
                target resolved raise])
  qed
  have e: "live_actions w_boom (Obj 1) ''e'' = [Obj 104, Obj 105, Obj 107] \<and>
   property w_boom Action (Obj 105) ''method'' = Func 10 \<and>
   property w_boom Action (Obj 105) ''xform'' = Undefined \<and>
   calls w_boom_turn = Array [Array [Func 4, Obj 2, Array [Obj 1, Str ''e'']]] \<and>
   live_actions w_boomx (Obj 1) ''e'' = [Obj 104, Obj 105, Obj 107] \<and>
   property w_boomx Action (Obj 105) ''method'' = Func 5 \<and>
   property w_boomx Action (Obj 105) ''xform'' = Func 10 \<and>
   calls w_boomx_turn = Array [Array [Func 4, Obj 2, Array [Obj 1, Str ''e'']]]"
    by code_simp
  show ?thesis using a b e by blast
qed

text \<open>
  Claim C7. On an event without live actions, whose name is not the reserved key,
  \<open>hasListeners\<close> answers \<^verbatim>\<open>false\<close>;
  after one registration it answers \<^verbatim>\<open>true\<close> (and changes nothing); after the removal
  of that listener it answers \<^verbatim>\<open>false\<close> again. Registering the listener once more
  after that negative answer, and so after its cleanup, succeeds: the event then has
  exactly one live action, with the target, method and transform of the registration,
  and \<open>sendEvent\<close> invokes it.
\<close>

theorem hasListeners_cycle:
  fixes G :: guid and xform xform' :: val
  assumes wf: "well_formed w" and F: "registry_untouched F" and obj: "ref_of obj \<noteq> None"
      and ev: "eventName \<noteq> []" and evk: "\<not> SKIP_PROPERTIES eventName"
      and n: "normalize target method = (t', m')"
      and sk: "\<not> SKIP_PROPERTIES (G t')" "\<not> SKIP_PROPERTIES (G m')"
      and zero: "live_slots_of w obj eventName = []"
      and w1: "w1 = snd (hasListeners obj eventName w)"
      and w2: "w2 = snd (addListener G F obj eventName target method xform w1)"
      and w3: "w3 = snd (removeListener G F obj eventName target method w2)"
      and w4: "w4 = snd (hasListeners obj eventName w3)"
      and w5: "w5 = snd (addListener G F obj eventName target method xform' w4)"
  shows "fst (hasListeners obj eventName w) = Inr (Bool False) \<and>
         hasListeners obj eventName w2 = (Inr (Bool True), w2) \<and>
         fst (hasListeners obj eventName w3) = Inr (Bool False) \<and>
         (\<exists>a. live_slots_of w5 obj eventName = [((G t', G m'), a)] \<and>
              property w5 Action a ''target'' = t' \<and> property w5 Action a ''method'' = m' \<and>
              property w5 Action a ''xform'' = xform' \<and>
              sendEvent F obj eventName args w5 =
                (case object_sendEvent F obj (Str eventName # args)
                        (snd (new_arguments (obj # Str eventName # args) w5)) of
                   (Inl e, u) \<Rightarrow> (Inl e, u)
                 | (Inr x, u) \<Rightarrow>
                    (case invokeAction F a (Arguments (fresh w5)) u of
                       (Inl e, u') \<Rightarrow> (Inl e, u')
                     | (Inr v, u') \<Rightarrow> (Inr (Bool True), u'))))"
proof -
  have nn: "\<not> nullish obj" using obj by (rule ref_not_nullish)
  have h0: "hasListeners obj eventName w = (Inr (Bool False), cleanup obj eventName w)"
    using zero by (simp add: hasListeners_eq[OF obj])
  then have c1: "w1 = cleanup obj eventName w" by (simp add: w1)
  note s1 = cleanup_post[OF wf obj, of eventName, folded c1]
  note a2 = addListener_fresh_event[where G=G and x=xform, OF F obj ev n sk s1, folded w2]
  obtain a where l2: "live_slots_of w2 obj eventName = [((G t', G m'), a)]" using a2(1) by blast
  have h2: "hasListeners obj eventName w2 = (Inr (Bool True), w2)"
    by (simp add: hasListeners_eq[OF obj] l2)
  note r3 = removeListener_only[where G=G, OF F n l2, folded w3]
  have L3: "ref_of (registry_path w3 obj [''listeners'']) \<noteq> None"
    using s1(1) by (simp add: r3(2) a2(2))
  have h3: "hasListeners obj eventName w3 = (Inr (Bool False), cleanup obj eventName w3)"
    using r3(1) by (simp add: hasListeners_eq[OF obj])
  then have c4: "w4 = cleanup obj eventName w3" by (simp add: w4)
  note s4 = cleanup_post_existing[OF L3, of eventName, folded c4]
  note a5 = addListener_fresh_event[where G=G and x=xform', OF F obj ev n sk s4, folded w5]
  obtain b where l5: "live_slots_of w5 obj eventName = [((G t', G m'), b)]"
      and f5: "property w5 Action b ''target'' = t'" "property w5 Action b ''method'' = m'"
        "property w5 Action b ''xform'' = xform'"
    using a5(1) by blast
  have se: "sendEvent F obj eventName args w5 =
                (case object_sendEvent F obj (Str eventName # args)
                        (snd (new_arguments (obj # Str eventName # args) w5)) of
                   (Inl e, u) \<Rightarrow> (Inl e, u)
                 | (Inr x, u) \<Rightarrow>
                    (case invokeAction F b (Arguments (fresh w5)) u of
                       (Inl e, u') \<Rightarrow> (Inl e, u')
                     | (Inr v, u') \<Rightarrow> (Inr (Bool True), u')))"
    by (simp add: sendEvent_eq[OF F nn] live_actions_def l5 split: prod.splits sum.splits)
  show ?thesis using h0 h2 h3 l5 f5 se by auto
qed

text \<open>
  The cycle on the event \<^verbatim>\<open>e\<close> of \<open>Obj 1\<close>, from the empty store: the cleanup has set
  the entry of the event to \<^verbatim>\<open>null\<close>, and the fire at the end calls the listener.
\<close>

theorem hasListeners_cycle_witness:
  "\<not> SKIP_PROPERTIES ''e'' \<and>
   fst (hasListeners (Obj 1) ''e'' w_init) = Inr (Bool False) \<and>
   hasListeners (Obj 1) ''e'' w_c2 = (Inr (Bool True), w_c2) \<and>
   fst (hasListeners (Obj 1) ''e'' w_c3) = Inr (Bool False) \<and>
   (\<exists>a. live_slots_of w_c5 (Obj 1) ''e'' = [((G0 (Obj 2), G0 (Func 4)), a)] \<and>
        property w_c5 Action a ''target'' = Obj 2 \<and>
        property w_c5 Action a ''method'' = Func 4 \<and>
        property w_c5 Action a ''xform'' = Undefined \<and>
        sendEvent F1 (Obj 1) ''e'' [Num 7] w_c5 =
          (case object_sendEvent F1 (Obj 1) [Str ''e'', Num 7]
                  (snd (new_arguments [Obj 1, Str ''e'', Num 7] w_c5)) of
             (Inl e, u) \<Rightarrow> (Inl e, u)
           | (Inr x, u) \<Rightarrow>
              (case invokeAction F1 a (Arguments (fresh w_c5)) u of
                 (Inl e, u') \<Rightarrow> (Inl e, u')
               | (Inr v, u') \<Rightarrow> (Inr (Bool True), u')))) \<and>
   registry_path w_c4 (Obj 1) [''listeners'', ''e''] = Null \<and>
   calls (snd (sendEvent F1 (Obj 1) ''e'' [Num 7] w_c5)) =
     Array [Array [Func 4, Obj 2, Array [Obj 1, Str ''e'', Num 7]]]"
proof -
  have z: "live_slots_of w_init (Obj 1) ''e'' = []" by code_simp
  have t: "fst (hasListeners (Obj 1) ''e'' w_init) = Inr (Bool False) \<and>
   hasListeners (Obj 1) ''e'' w_c2 = (Inr (Bool True), w_c2) \<and>
   fst (hasListeners (Obj 1) ''e'' w_c3) = Inr (Bool False) \<and>
   (\<exists>a. live_slots_of w_c5 (Obj 1) ''e'' = [((G0 (Obj 2), G0 (Func 4)), a)] \<and>
        property w_c5 Action a ''target'' = Obj 2 \<and>
        property w_c5 Action a ''method'' = Func 4 \<and>
        property w_c5 Action a ''xform'' = Undefined \<and>
        sendEvent F1 (Obj 1) ''e'' [Num 7] w_c5 =
          (case object_sendEvent F1 (Obj 1) [Str ''e'', Num 7]
                  (snd (new_arguments [Obj 1, Str ''e'', Num 7] w_c5)) of
             (Inl e, u) \<Rightarrow> (Inl e, u)
           | (Inr x, u) \<Rightarrow>
              (case invokeAction F1 a (Arguments (fresh w_c5)) u of
                 (Inl e, u') \<Rightarrow> (Inl e, u')
               | (Inr v, u') \<Rightarrow> (Inr (Bool True), u'))))"
    by (rule hasListeners_cycle[where G=G0 and F=F1 and w=w_init and t'="Obj 2"
          and m'="Func 4" and xform=Undefined and xform'=Undefined and args="[Num 7]",
          OF well_formed_init registry_untouched_F1 _ _ _ normalize_pair _ _ z
             w_c1_def w_c2_def w_c3_def w_c4_def w_c5_def]) (simp_all add: SKIP_PROPERTIES_def)
  have e: "registry_path w_c4 (Obj 1) [''listeners'', ''e''] = Null \<and>
   calls (snd (sendEvent F1 (Obj 1) ''e'' [Num 7] w_c5)) =
     Array [Array [Func 4, Obj 2, Array [Obj 1, Str ''e'', Num 7]]]"
    by code_simp
  have s: "\<not> SKIP_PROPERTIES ''e''" by (simp add: SKIP_PROPERTIES_def)
  show ?thesis using s t e by blast
qed

text \<open>
  Claim C8, as the code has it. \<open>addListener\<close> asserts its arguments: without a truthy
  object and a non-empty event name it raises the assertion's error, at once and without
  changing anything. \<open>removeListener\<close> and \<open>sendEvent\<close> have no such check. With an
  object and the empty event name \<open>removeListener\<close> returns \<^verbatim>\<open>undefined\<close>, and
  \<open>sendEvent\<close> returns \<^verbatim>\<open>true\<close> when nothing is registered under that name. With
  \<^verbatim>\<open>null\<close> or \<^verbatim>\<open>undefined\<close> for the object both raise the \<^verbatim>\<open>TypeError\<close> of the
  property access, not the error of an argument check. (In these cases \<open>sendEvent\<close>
  leaves the store as it was but for the \<^verbatim>\<open>arguments\<close> object of its own call.)
\<close>

theorem argument_checks:
  fixes G :: guid
  shows "(\<not> (truthy obj \<and> eventName \<noteq> []) \<longrightarrow>
            addListener G F obj eventName target method xform w =
              (Inl (AssertionFailed
                 ''You must pass at least an object and event name to Ember.addListener''), w)) \<and>
         (ref_of obj \<noteq> None \<and> \<not> is_function (property w User obj ''didRemoveListener'') \<longrightarrow>
            fst (removeListener G F obj [] target method w) = Inr Undefined) \<and>
         (ref_of obj \<noteq> None \<and> \<not> is_function (property w User obj ''sendEvent'') \<and>
          live_slots_of w obj [] = [] \<longrightarrow>
            sendEvent F obj [] args w =
              (Inr (Bool True), snd (new_arguments (obj # Str [] # args) w))) \<and>
         (nullish obj \<longrightarrow>
            removeListener G F obj eventName target method w = (Inl TypeError, w) \<and>
            sendEvent F obj eventName args w =
              (Inl TypeError, snd (new_arguments (obj # Str eventName # args) w)))"
proof -
  have 1: "\<not> (truthy obj \<and> eventName \<noteq> []) \<Longrightarrow>
            addListener G F obj eventName target method xform w =
              (Inl (AssertionFailed
                 ''You must pass at least an object and event name to Ember.addListener''), w)"
    by (cases "truthy obj"; cases "eventName = []") (simp_all add: addListener_def assert_def)
  have 2: "ref_of obj \<noteq> None \<Longrightarrow> \<not> is_function (property w User obj ''didRemoveListener'') \<Longrightarrow>
            fst (removeListener G F obj [] target method w) = Inr Undefined"
    using removeListener_result[where G=G and F=F and ev="[]" and t=target and m="method" and w=w and obj=obj]
    by (cases "normalize target method") auto
  have 3: "sendEvent F obj [] args w =
              (Inr (Bool True), snd (new_arguments (obj # Str [] # args) w))"
    if obj: "ref_of obj \<noteq> None" and h: "\<not> is_function (property w User obj ''sendEvent'')"
      and z: "live_slots_of w obj [] = []"
  proof -
    have nn: "\<not> nullish obj" using obj by (rule ref_not_nullish)
    let ?w0 = "snd (new_arguments (obj # Str [] # args) w)"
    have hk: "object_sendEvent F obj (Str [] # args) ?w0 = (Inr (), ?w0)"
      using nn h by (simp add: object_sendEvent_def get_prop_def)
    obtain ts where t: "targetSetFor obj [] w = (Inr ts, w)"
      using targetSetFor_not_nullish[OF nn] by blast
    have t0: "targetSetFor obj [] ?w0 = (Inr ts, ?w0)" using t by (rule targetSetFor_new_arguments)
    have "live_slots w ts = []"
      using z t by (simp add: live_slots_of_def targetSet_of_def)
    then have "live_slots ?w0 ts = []"
      by (simp add: live_slots_def live_methods_def kept_property[of w ?w0] kept_keys[of w ?w0])
    then show ?thesis by (simp add: sendEvent_def case_new_arguments hk t0 iterateSet_none)
  qed
  have 4: "removeListener G F obj eventName target method w = (Inl TypeError, w) \<and>
            sendEvent F obj eventName args w =
              (Inl TypeError, snd (new_arguments (obj # Str eventName # args) w))" if "nullish obj"
  proof -
    have "obj \<noteq> Ember" using that by (auto simp: Ember_def)
    then show ?thesis
      using that
      by (cases "normalize target method")
         (simp add: removeListener_def actionSetFor_def metaPath_def meta_def sendEvent_def
        case_new_arguments object_sendEvent_def get_prop_def)
  qed
  show ?thesis using 1 2 3 4 by blast
qed

text \<open>
  The three functions without an object, and with an object and the empty event name.
\<close>

theorem argument_checks_witness:
  "addListener G0 F1 Null ''e'' (Obj 2) (Func 4) Undefined w_init =
     (Inl (AssertionFailed
        ''You must pass at least an object and event name to Ember.addListener''), w_init) \<and>
   addListener G0 F1 (Obj 1) [] (Obj 2) (Func 4) Undefined w_init =
     (Inl (AssertionFailed
        ''You must pass at least an object and event name to Ember.addListener''), w_init) \<and>
   fst (removeListener G0 F1 (Obj 1) [] (Obj 2) (Func 4) w_init) = Inr Undefined \<and>
   sendEvent F1 (Obj 1) [] [Num 7] w_init =
     (Inr (Bool True), snd (new_arguments [Obj 1, Str [], Num 7] w_init)) \<and>
   removeListener G0 F1 Null ''e'' (Obj 2) (Func 4) w_init = (Inl TypeError, w_init) \<and>
   sendEvent F1 Null ''e'' [Num 7] w_init =
     (Inl TypeError, snd (new_arguments [Null, Str ''e'', Num 7] w_init))"
proof -
  note n = argument_checks[where G=G0 and F=F1 and obj=Null and eventName="''e''" and w=w_init
             and target="Obj 2" and xform=Undefined and args="[Num 7]", of "Func 4"]
  note o = argument_checks[where G=G0 and F=F1 and obj="Obj 1" and eventName="[]" and w=w_init
             and target="Obj 2" and xform=Undefined and args="[Num 7]", of "Func 4"]
  have h: "\<not> is_function (property w_init User (Obj 1) ''didRemoveListener'')"
          "\<not> is_function (property w_init User (Obj 1) ''sendEvent'')"
          "live_slots_of w_init (Obj 1) [] = []"
    by code_simp+
  have 1: "addListener G0 F1 Null ''e'' (Obj 2) (Func 4) Undefined w_init =
     (Inl (AssertionFailed
        ''You must pass at least an object and event name to Ember.addListener''), w_init)"
    using n by simp
  have 2: "addListener G0 F1 (Obj 1) [] (Obj 2) (Func 4) Undefined w_init =
     (Inl (AssertionFailed
        ''You must pass at least an object and event name to Ember.addListener''), w_init)"
    using o by simp
  have 3: "fst (removeListener G0 F1 (Obj 1) [] (Obj 2) (Func 4) w_init) = Inr Undefined"
    using o h by simp
  have 4: "sendEvent F1 (Obj 1) [] [Num 7] w_init =
     (Inr (Bool True), snd (new_arguments [Obj 1, Str [], Num 7] w_init))"
    using o h by simp
  have 5: "removeListener G0 F1 Null ''e'' (Obj 2) (Func 4) w_init = (Inl TypeError, w_init) \<and>
   sendEvent F1 Null ''e'' [Num 7] w_init =
     (Inl TypeError, snd (new_arguments [Null, Str ''e'', Num 7] w_init))"
    using n by simp
  show ?thesis using 1 2 3 4 5 by blast
qed

text \<open>
  With the empty event name \<open>removeListener\<close> and \<open>sendEvent\<close> return normally.
\<close>

theorem argument_checks_counterexample:
  "fst (removeListener G0 F1 (Obj 1) [] (Obj 2) (Func 4) w_init) = Inr Undefined \<and>
   fst (sendEvent F1 (Obj 1) [] [] w_init) = Inr (Bool True)"
  by code_simp






end
